theory Spec2Isabelle
  imports Complex_Main "HOL-Library.Word"
begin

section \<open>Strings\<close>

text \<open>
  A string of the page is a sequence of 16-bit code units; \<open>word.length\<close>, \<open>word[i]\<close>,
  \<open>slice\<close> and the regular expressions of \<open>page.tsx\<close> (none has the \<open>u\<close> flag) all
  work on code units.  \<open>ascii\<close> writes a literal of the 7-bit range.
\<close>

type_synonym jschar = "16 word"
type_synonym jsstring = "jschar list"

definition ascii :: "string \<Rightarrow> jsstring" where
  "ascii s = map (\<lambda>c. of_nat (of_char c)) s"

text \<open>The class \<open>\w\<close>: \<open>[A-Za-z0-9_]\<close>.\<close>

definition is_word :: "jschar \<Rightarrow> bool" where
  "is_word c \<longleftrightarrow>
     (0x41 \<le> c \<and> c \<le> 0x5A) \<or> (0x61 \<le> c \<and> c \<le> 0x7A) \<or> (0x30 \<le> c \<and> c \<le> 0x39) \<or> c = 0x5F"

text \<open>
  \<open>s.slice(b, e)\<close>: a negative index counts from the end, and both ends are clamped to
  the string.  \<open>s.slice(b)\<close> runs to the end of the string.
\<close>

definition slice_index :: "'a list \<Rightarrow> int \<Rightarrow> nat" where
  "slice_index s k =
     (if k < 0 then nat (max (int (length s) + k) 0) else nat (min k (int (length s))))"

definition slice2 :: "'a list \<Rightarrow> int \<Rightarrow> int \<Rightarrow> 'a list" where
  "slice2 s b e = (let from = slice_index s b; to = slice_index s e
                   in take (to - from) (drop from s))"

definition slice1 :: "'a list \<Rightarrow> int \<Rightarrow> 'a list" where
  "slice1 s b = drop (slice_index s b) s"

text \<open>
  \<open>s[k] || ''\<close>: the one-unit string at \<open>k\<close>, and the empty string where \<open>s[k]\<close> is
  \<open>undefined\<close> (a one-unit string is never falsy).
\<close>

definition char_or_empty :: "jsstring \<Rightarrow> int \<Rightarrow> jsstring" where
  "char_or_empty s k = (if 0 \<le> k \<and> k < int (length s) then [s ! nat k] else [])"


section \<open>Focal splitter\<close>

definition getFocalIndex :: "jsstring \<Rightarrow> int" where
  "getFocalIndex word =
     (let cleanLength = length (filter is_word word)
      in if cleanLength \<le> 2 then 1
         else if cleanLength \<le> 4 then 2
         else if cleanLength \<le> 6 then 3
         else if cleanLength \<le> 9 then 4
         else if cleanLength \<le> 13 then 5
         else 6)"

record focal_split =
  before :: jsstring
  focal :: jsstring
  after :: jsstring

text \<open>The variables of the scanning loop of \<open>splitWord\<close>.\<close>

record scan_state =
  charCount :: int
  focalPos :: int
  letterPositions :: "int list"

definition scan_init :: scan_state where
  "scan_init = \<lparr>charCount = 0, focalPos = - 1, letterPositions = []\<rparr>"

definition scan_body :: "jsstring \<Rightarrow> int \<Rightarrow> nat \<Rightarrow> scan_state \<Rightarrow> scan_state" where
  "scan_body word focalIndex i st =
     (if is_word (word ! i) then
        let st1 = st\<lparr>letterPositions := letterPositions st @ [int i]\<rparr>;
            st2 = st1\<lparr>charCount := charCount st1 + 1\<rparr>
        in if charCount st2 = focalIndex then st2\<lparr>focalPos := int i\<rparr> else st2
      else st)"

text \<open>\<open>for (let i = 0; i < word.length; i++)\<close>, entered at \<open>i\<close>.\<close>

function scan :: "jsstring \<Rightarrow> int \<Rightarrow> nat \<Rightarrow> scan_state \<Rightarrow> scan_state" where
  "scan word focalIndex i st =
     (if i < length word then scan word focalIndex (i + 1) (scan_body word focalIndex i st)
      else st)"
  by pat_completeness auto
termination
  by (relation "measure (\<lambda>(word, focalIndex, i, st). length word - i)") auto

declare scan.simps [simp del]

definition splitWord :: "jsstring \<Rightarrow> focal_split" where
  "splitWord word =
     (let cleanWord = filter is_word word
      in if length cleanWord = 0 then
           \<lparr>before = slice2 word 0 (int (length word div 2)),
            focal = char_or_empty word (int (length word div 2)),
            after = slice1 word (int (length word div 2) + 1)\<rparr>
         else
           let focalIndex = getFocalIndex word;
               st = scan word focalIndex 0 scan_init;
               focalPos = (if focalPos st = - 1
                           then (case letterPositions st of [] \<Rightarrow> 0 | p # _ \<Rightarrow> p)
                           else focalPos st)
           in \<lparr>before = slice2 word 0 focalPos,
               focal = char_or_empty word focalPos,
               after = slice1 word (focalPos + 1)\<rparr>)"

text \<open>
  The reference definition of the specification: the rank table on the number \<open>n\<close> of
  word-constituent characters, the position whose running count reaches the rank, and the
  midpoint split for a unit without any such character.
\<close>

definition spec_rank :: "nat \<Rightarrow> nat" where
  "spec_rank n = (if n \<le> 2 then 1 else if n \<le> 4 then 2 else if n \<le> 6 then 3
                  else if n \<le> 9 then 4 else if n \<le> 13 then 5 else 6)"



definition split_at :: "jsstring \<Rightarrow> nat \<Rightarrow> focal_split" where
  "split_at w k = \<lparr>before = take k w,
                   focal = (if k < length w then [w ! k] else []),
                   after = drop (Suc k) w\<rparr>"



section \<open>Tokenizer\<close>

text \<open>
  The class \<open>\s\<close>, which is also the set of code units that \<open>trim\<close> strips: the
  white space and line terminators of the language.
\<close>

definition is_space :: "jschar \<Rightarrow> bool" where
  "is_space c \<longleftrightarrow>
     (0x09 \<le> c \<and> c \<le> 0x0D) \<or> c = 0x20 \<or> c = 0xA0 \<or> c = 0x1680 \<or>
     (0x2000 \<le> c \<and> c \<le> 0x200A) \<or> c = 0x2028 \<or> c = 0x2029 \<or> c = 0x202F \<or>
     c = 0x205F \<or> c = 0x3000 \<or> c = 0xFEFF"

text \<open>The class \<open>[\s-]\<close>.\<close>

definition is_sep :: "jschar \<Rightarrow> bool" where
  "is_sep c \<longleftrightarrow> is_space c \<or> c = 0x2D"

definition trim :: "jsstring \<Rightarrow> jsstring" where
  "trim s = rev (dropWhile is_space (rev (dropWhile is_space s)))"

text \<open>
  \<open>s.split(/[\s-]+/)\<close>: the pieces of \<open>s\<close> between the matches of the pattern, found left
  to right, each match being a longest run of separators.  \<open>cur\<close> is the piece being read.
  A separator at either end leaves an empty piece there, and the empty string gives one
  empty piece.
\<close>

function split_runs :: "jsstring \<Rightarrow> jsstring \<Rightarrow> jsstring list" where
  "split_runs cur [] = [cur]"
| "split_runs cur (c # cs) =
     (if is_sep c then cur # split_runs [] (dropWhile is_sep cs)
      else split_runs (cur @ [c]) cs)"
  by pat_completeness auto
termination
  by (relation "measure (\<lambda>(cur, s). length s)") (auto simp: less_Suc_eq_le length_dropWhile_le)

definition parseText :: "jsstring \<Rightarrow> jsstring list" where
  "parseText text = filter (\<lambda>word. length word > 0) (split_runs [] (trim text))"

text \<open>
  The reference reading of the tokenizer: the maximal runs of characters that are neither
  white space nor hyphens, in order.
\<close>

function token_runs :: "jsstring \<Rightarrow> jsstring list" where
  "token_runs [] = []"
| "token_runs (c # cs) =
     (if is_sep c then token_runs cs
      else (c # takeWhile (\<lambda>d. \<not> is_sep d) cs) # token_runs (dropWhile (\<lambda>d. \<not> is_sep d) cs))"
  by pat_completeness auto
termination
  by (relation "measure length") (auto simp: less_Suc_eq_le length_dropWhile_le)


section \<open>Numbers\<close>

text \<open>
  A number of the page is an IEEE 754 binary64 value, and every arithmetic operation
  rounds its exact result to the nearest such value, ties to the even significand.  A finite
  value is modelled by the rational it denotes.  \<open>fl\<close> is that rounding for a significand of
  53 bits; the exponent range of the format is not modelled, which is exact here: a word
  delay lies between 60 and 900, an array has fewer than \<open>2^32\<close> elements, and so no
  value of the pacing model leaves the normal range.  A decimal literal of the source
  denotes the rounding of its decimal value.
\<close>

type_synonym double = rat

definition round_half_even :: "rat \<Rightarrow> int" where
  "round_half_even q =
     (let f = \<lfloor>q\<rfloor>; r = q - of_int f
      in if r < 1 / 2 then f else if 1 / 2 < r then f + 1 else if even f then f else f + 1)"

text \<open>The number of binary digits of a positive integer.\<close>

function bitlen :: "int \<Rightarrow> int" where
  "bitlen n = (if 0 < n then bitlen (n div 2) + 1 else 0)"
  by pat_completeness auto
termination
  by (relation "measure nat") auto

declare bitlen.simps [simp del]

text \<open>The binary exponent of a positive rational: \<open>2^e \<le> x < 2^(e+1)\<close>.\<close>

definition ilog2 :: "rat \<Rightarrow> int" where
  "ilog2 x = (let (p, q) = quotient_of x; d = bitlen p - bitlen q
              in if 2 powi d \<le> x then d else d - 1)"

definition fl :: "rat \<Rightarrow> double" where
  "fl x = (if x = 0 then 0
           else let u = 2 powi (ilog2 \<bar>x\<bar> - 52)
                in sgn x * of_int (round_half_even (\<bar>x\<bar> / u)) * u)"

text \<open>The quotient is modelled for a divisor other than zero.\<close>

definition fdiv :: "double \<Rightarrow> double \<Rightarrow> double" where
  "fdiv a b = fl (a / b)"

definition fmul :: "double \<Rightarrow> double \<Rightarrow> double" where
  "fmul a b = fl (a * b)"

definition fadd :: "double \<Rightarrow> double \<Rightarrow> double" where
  "fadd a b = fl (a + b)"


section \<open>Pacing model\<close>

text \<open>\<open>/[cs]$/.test(word)\<close>: the last code unit of \<open>word\<close> is one of \<open>cs\<close>.\<close>

definition ends_with_any :: "string \<Rightarrow> jsstring \<Rightarrow> bool" where
  "ends_with_any cs word \<longleftrightarrow> word \<noteq> [] \<and> last word \<in> set (ascii cs)"

definition getPauseMultiplier :: "jsstring \<Rightarrow> double" where
  "getPauseMultiplier word =
     (if ends_with_any ''.!?'' word then fl (3 / 2)
      else if ends_with_any '';:'' word then fl (6 / 5)
      else if ends_with_any '','' word then fl (11 / 10)
      else fl 1)"

definition getWordDelay :: "int \<Rightarrow> jsstring \<Rightarrow> double" where
  "getWordDelay speed word =
     (let baseDelay = fmul (fdiv 60 (of_int speed)) 1000;
          multiplier = getPauseMultiplier word
      in fmul baseDelay multiplier)"

text \<open>
  The pacing model as the specification words it, over the exact numbers: the base delay
  \<open>(60 / rate) * 1000\<close>, the multiplier chosen by the trailing character in priority order,
  and the remaining time as the ceiling of the sum over the units after the index.
\<close>

definition spec_multiplier :: "jsstring \<Rightarrow> rat" where
  "spec_multiplier unit =
     (if ends_with_any ''.!?'' unit then 3 / 2
      else if ends_with_any '';:'' unit then 6 / 5
      else if ends_with_any '','' unit then 11 / 10
      else 1)"

definition spec_delay :: "jsstring \<Rightarrow> int \<Rightarrow> rat" where
  "spec_delay unit rate = (60 / of_int rate) * 1000 * spec_multiplier unit"



section \<open>Playback controller\<close>

text \<open>The state variables of the component \<open>Home\<close>.\<close>

record state =
  inputText :: jsstring
  words :: "jsstring list"
  currentIndex :: int
  isPlaying :: bool
  speed :: int
  countdown :: "int option"

definition initial :: state where
  "initial = \<lparr>inputText = [], words = [], currentIndex = 0, isPlaying = False,
               speed = 300, countdown = None\<rparr>"

definition togglePlay :: "state \<Rightarrow> state" where
  "togglePlay s = (if length (words s) = 0 then s else s\<lparr>isPlaying := \<not> isPlaying s\<rparr>)"

definition adjustSpeed :: "int \<Rightarrow> state \<Rightarrow> state" where
  "adjustSpeed delta s = s\<lparr>speed := (let newSpeed = speed s + delta in max 100 (min 1000 newSpeed))\<rparr>"

definition handleStart :: "state \<Rightarrow> state" where
  "handleStart s =
     (if trim (inputText s) \<noteq> [] then
        s\<lparr>words := parseText (inputText s), currentIndex := 0, isPlaying := False,
          countdown := Some 3\<rparr>
      else s)"

definition handleStop :: "state \<Rightarrow> state" where
  "handleStop s = s\<lparr>isPlaying := False, countdown := None\<rparr>"

definition handleReset :: "state \<Rightarrow> state" where
  "handleReset s = s\<lparr>isPlaying := False, currentIndex := 0, words := []\<rparr>"

text \<open>The click on the countdown overlay, which is shown while a countdown is pending.\<close>

definition skipCountdown :: "state \<Rightarrow> state" where
  "skipCountdown s =
     (if countdown s \<noteq> None then s\<lparr>countdown := None, isPlaying := True\<rparr> else s)"

text \<open>The space key: skip a pending countdown, and toggle otherwise.\<close>

definition keySpace :: "state \<Rightarrow> state" where
  "keySpace s =
     (if countdown s \<noteq> None then s\<lparr>countdown := None, isPlaying := True\<rparr> else togglePlay s)"

text \<open>The button "Back to Input" of the reading display.\<close>

definition backToInput :: "state \<Rightarrow> state" where
  "backToInput s = s\<lparr>words := [], currentIndex := 0\<rparr>"

text \<open>The button "Try Sample Text"; \<open>sample\<close> is the text literal of the source.\<close>

definition trySample :: "jsstring \<Rightarrow> state \<Rightarrow> state" where
  "trySample sample s =
     s\<lparr>inputText := sample, words := parseText sample, currentIndex := 0, isPlaying := False,
       countdown := Some 3\<rparr>"

text \<open>
  The countdown effect: a pending positive countdown is decremented after a second, and a
  countdown that has reached zero is cleared at once and playback begins.
\<close>

definition countdownZero :: "state \<Rightarrow> state" where
  "countdownZero s =
     (if countdown s = Some 0 then s\<lparr>countdown := None, isPlaying := True\<rparr> else s)"

definition countdownTick :: "state \<Rightarrow> state" where
  "countdownTick s =
     (case countdown s of
        Some n \<Rightarrow> if n > 0 then countdownZero (s\<lparr>countdown := Some (n - 1)\<rparr>) else s
      | None \<Rightarrow> s)"

text \<open>
  The expiry of the per-word timer, which is armed while
  \<open>isPlaying && words.length > 0 && currentIndex < words.length\<close>.
\<close>

definition wordTimer :: "state \<Rightarrow> state" where
  "wordTimer s =
     (if isPlaying s \<and> length (words s) > 0 \<and> currentIndex s < int (length (words s)) then
        (if currentIndex s \<ge> int (length (words s)) - 1 then s\<lparr>isPlaying := False\<rparr>
         else s\<lparr>currentIndex := currentIndex s + 1\<rparr>)
      else s)"

text \<open>
  The two range inputs store their value in \<open>speed\<close> as it is; their attributes
  \<open>min="100" max="1000" step="50"\<close> confine the value they deliver.
\<close>

definition sliderChange :: "int \<Rightarrow> state \<Rightarrow> state" where
  "sliderChange v s = s\<lparr>speed := v\<rparr>"

definition slider_value :: "int \<Rightarrow> bool" where
  "slider_value v \<longleftrightarrow> 100 \<le> v \<and> v \<le> 1000 \<and> v mod 50 = 0"

datatype event =
    Start | Toggle | Stop | Reset | AdjustSpeed int | SkipCountdown
  | KeySpace | KeyArrowLeft | KeyArrowRight
  | CountdownTick | WordTimer
  | BackToInput | SetInputText jsstring | TrySample jsstring | SliderChange int

fun step :: "event \<Rightarrow> state \<Rightarrow> state" where
  "step Start s = handleStart s"
| "step Toggle s = togglePlay s"
| "step Stop s = handleStop s"
| "step Reset s = handleReset s"
| "step (AdjustSpeed delta) s = adjustSpeed delta s"
| "step SkipCountdown s = skipCountdown s"
| "step KeySpace s = keySpace s"
| "step KeyArrowLeft s = adjustSpeed (- 50) s"
| "step KeyArrowRight s = adjustSpeed 50 s"
| "step CountdownTick s = countdownTick s"
| "step WordTimer s = wordTimer s"
| "step BackToInput s = backToInput s"
| "step (SetInputText t) s = s\<lparr>inputText := t\<rparr>"
| "step (TrySample t) s = trySample t s"
| "step (SliderChange v) s = sliderChange v s"

definition wf_event :: "event \<Rightarrow> bool" where
  "wf_event ev = (case ev of SliderChange v \<Rightarrow> slider_value v | _ \<Rightarrow> True)"

definition run :: "event list \<Rightarrow> state \<Rightarrow> state" where
  "run evs s = foldl (\<lambda>s ev. step ev s) s evs"

definition calculateRemainingTime :: "state \<Rightarrow> int" where
  "calculateRemainingTime s =
     (if length (words s) = 0 \<or> currentIndex s \<ge> int (length (words s)) - 1 then 0
      else
        let remainingWords = slice1 (words s) (currentIndex s + 1);
            totalMs = foldl (\<lambda>acc word. fadd acc (getWordDelay (speed s) word)) 0 remainingWords
        in \<lceil>fdiv totalMs 1000\<rceil>)"

text \<open>The states the specification calls Paused: a sequence, no playback, no countdown.\<close>

definition paused :: "state \<Rightarrow> bool" where
  "paused s \<longleftrightarrow> words s \<noteq> [] \<and> \<not> isPlaying s \<and> countdown s = None"

definition playing :: "state \<Rightarrow> bool" where
  "playing s \<longleftrightarrow> words s \<noteq> [] \<and> isPlaying s \<and> countdown s = None"

definition position_ok :: "state \<Rightarrow> bool" where
  "position_ok s \<longleftrightarrow>
     (words s \<noteq> [] \<longrightarrow> 0 \<le> currentIndex s \<and> currentIndex s < int (length (words s)))"

definition rate_ok :: "state \<Rightarrow> bool" where
  "rate_ok s \<longleftrightarrow> 100 \<le> speed s \<and> speed s \<le> 1000"


section \<open>Auxiliary notions of the proofs\<close>

text \<open>
  The invariant of the scanning loop after \<open>i\<close> characters: the count so far, the positions
  recorded so far, and the focal position once the count has reached the rank.
\<close>

definition wcount :: "jsstring \<Rightarrow> nat \<Rightarrow> nat" where
  "wcount w i = length (filter is_word (take i w))"

definition word_positions :: "jsstring \<Rightarrow> nat \<Rightarrow> nat list" where
  "word_positions w i = filter (\<lambda>j. is_word (w ! j)) [0..<i]"

definition scan_inv :: "jsstring \<Rightarrow> int \<Rightarrow> nat \<Rightarrow> scan_state \<Rightarrow> bool" where
  "scan_inv w fi i st \<longleftrightarrow>
     charCount st = int (wcount w i) \<and>
     letterPositions st = map int (word_positions w i) \<and>
     (if int (wcount w i) < fi then focalPos st = - 1
      else (\<exists>p<i. focalPos st = int p \<and> is_word (w ! p) \<and> int (wcount w (Suc p)) = fi))"

text \<open>
  The unit roundoff of binary64, and the approximation of an exact value \<open>x\<close> by a computed
  value \<open>a\<close> after at most \<open>k\<close> roundings.
\<close>

definition eps :: rat where
  "eps = 1 / 2 ^ 53"

definition close_to :: "nat \<Rightarrow> rat \<Rightarrow> rat \<Rightarrow> bool" where
  "close_to k a x \<longleftrightarrow> 0 \<le> x \<and> 0 \<le> a \<and> \<bar>a - x\<bar> \<le> ((1 + eps) ^ k - 1) * x"

text \<open>The running total of \<open>calculateRemainingTime\<close>: the \<open>reduce\<close> over the remaining words.\<close>

definition delay_total :: "int \<Rightarrow> jsstring list \<Rightarrow> double" where
  "delay_total r ws = foldl (\<lambda>acc word. fadd acc (getWordDelay r word)) 0 ws"

text \<open>Sessions used as examples; each is reached from the initial state.\<close>

definition units_450 :: "jsstring list" where
  "units_450 = map ascii [''Go'', ''a.'', ''b.'', ''c.'', ''d'', ''e'', ''f'']"

definition reading_450 :: state where
  "reading_450 = \<lparr>inputText = ascii ''Go a. b. c. d e f'', words = units_450, currentIndex = 0,
                   isPlaying = True, speed = 450, countdown = None\<rparr>"

definition reading_abc :: state where
  "reading_abc = \<lparr>inputText = ascii ''a b c'', words = map ascii [''a'', ''b'', ''c''],
                   currentIndex = 0, isPlaying = True, speed = 300, countdown = None\<rparr>"

definition paused_example :: state where
  "paused_example =
     run [SetInputText (ascii ''a b c''), Start, CountdownTick, CountdownTick, CountdownTick,
          WordTimer, Toggle] initial"


section \<open>Focal splitter: the scan and the reference split\<close>

lemma wcount_Suc:
  "i < length w \<Longrightarrow> wcount w (Suc i) = wcount w i + (if is_word (w ! i) then 1 else 0)"
  by (simp add: wcount_def take_Suc_conv_app_nth)


lemma wcount_all: "length w \<le> i \<Longrightarrow> wcount w i = length (filter is_word w)"
  by (simp add: wcount_def)

lemma word_positions_Suc:
  "word_positions w (Suc i) = word_positions w i @ (if is_word (w ! i) then [i] else [])"
  by (simp add: word_positions_def)

lemma scan_inv_init: "1 \<le> fi \<Longrightarrow> scan_inv w fi 0 scan_init"
  by (simp add: scan_inv_def scan_init_def wcount_def word_positions_def)

lemma scan_inv_body:
  assumes "scan_inv w fi i st" "i < length w"
  shows "scan_inv w fi (Suc i) (scan_body w fi i st)"
proof (cases "is_word (w ! i)")
  case False
  with assms show ?thesis
    by (auto simp: scan_inv_def scan_body_def wcount_Suc word_positions_Suc intro: less_SucI)
next
  case True
  have c: "wcount w (Suc i) = wcount w i + 1" using True assms(2) by (simp add: wcount_Suc)
  show ?thesis
  proof (cases "int (wcount w i) + 1 = fi")
    case True
    with \<open>is_word (w ! i)\<close> assms c show ?thesis
      by (auto simp: scan_inv_def scan_body_def word_positions_Suc Let_def)
  next
    case False
    with \<open>is_word (w ! i)\<close> assms c show ?thesis
      by (auto simp: scan_inv_def scan_body_def word_positions_Suc Let_def intro: less_SucI)
  qed
qed

lemma scan_inv_scan:
  "scan_inv w fi i st \<Longrightarrow> i \<le> length w \<Longrightarrow> scan_inv w fi (length w) (scan w fi i st)"
proof (induction w fi i st rule: scan.induct)
  case (1 word focalIndex i st)
  show ?case
  proof (cases "i < length word")
    case True
    have "scan_inv word focalIndex (length word)
            (scan word focalIndex (i + 1) (scan_body word focalIndex i st))"
      using 1 True scan_inv_body [of word focalIndex i st] by simp
    then show ?thesis using True by (subst scan.simps) simp
  next
    case False
    with 1 show ?thesis by (subst scan.simps) simp
  qed
qed

lemma scan_final:
  "1 \<le> fi \<Longrightarrow> scan_inv w fi (length w) (scan w fi 0 scan_init)"
  using scan_inv_scan [OF scan_inv_init] by simp

lemma getFocalIndex_rank: "getFocalIndex w = int (spec_rank (length (filter is_word w)))"
  by (simp add: getFocalIndex_def spec_rank_def Let_def)

lemma spec_rank_bounds: "1 \<le> n \<Longrightarrow> 1 \<le> spec_rank n \<and> spec_rank n \<le> n"
  by (simp add: spec_rank_def)

lemma slice2_take: "slice2 w 0 (int p) = take p w"
  by (simp add: slice2_def slice_index_def min_def)

lemma slice1_drop: "slice1 w (int p + 1) = drop (Suc p) w"
proof -
  have "slice_index w (int p + 1) = min (Suc p) (length w)"
    by (auto simp: slice_index_def min_def nat_add_distrib)
  moreover have "drop (min (Suc p) (length w)) w = drop (Suc p) w"
    by (cases "Suc p \<le> length w") (simp_all add: min_def)
  ultimately show ?thesis by (simp add: slice1_def)
qed

lemma char_or_empty_nat: "char_or_empty w (int p) = (if p < length w then [w ! p] else [])"
  by (simp add: char_or_empty_def)

lemma split_parts:
  "\<lparr>before = slice2 w 0 (int p), focal = char_or_empty w (int p), after = slice1 w (int p + 1)\<rparr>
     = split_at w p"
  by (simp add: split_at_def slice2_take slice1_drop char_or_empty_nat)

lemma split_at_concat: "before (split_at w p) @ focal (split_at w p) @ after (split_at w p) = w"
proof (cases "p < length w")
  case True
  then show ?thesis by (simp add: split_at_def id_take_nth_drop [symmetric])
next
  case False
  then show ?thesis by (simp add: split_at_def)
qed

lemma scan_found:
  assumes "1 \<le> length (filter is_word w)"
  shows "\<exists>p<length w. focalPos (scan w (getFocalIndex w) 0 scan_init) = int p \<and> is_word (w ! p)
           \<and> wcount w (Suc p) = spec_rank (length (filter is_word w))"
proof -
  let ?n = "length (filter is_word w)"
  have r: "1 \<le> spec_rank ?n" "spec_rank ?n \<le> ?n" using spec_rank_bounds [OF assms] by simp_all
  have "scan_inv w (int (spec_rank ?n)) (length w) (scan w (int (spec_rank ?n)) 0 scan_init)"
    using r(1) by (intro scan_final) simp
  moreover have "\<not> int (wcount w (length w)) < int (spec_rank ?n)"
    using r(2) by (simp add: wcount_all)
  ultimately show ?thesis
    by (auto simp: scan_inv_def getFocalIndex_rank)
qed

lemma splitWord_found:
  assumes "1 \<le> length (filter is_word w)"
  shows "\<exists>p<length w. is_word (w ! p) \<and> wcount w (Suc p) = spec_rank (length (filter is_word w))
           \<and> splitWord w = split_at w p"
proof -
  from scan_found [OF assms] obtain p where p: "p < length w"
    "focalPos (scan w (getFocalIndex w) 0 scan_init) = int p" "is_word (w ! p)"
    "wcount w (Suc p) = spec_rank (length (filter is_word w))" by blast
  have "filter is_word w \<noteq> []" using assms by auto
  then have "splitWord w = split_at w p"
    using p(2) by (simp add: splitWord_def Let_def split_parts)
  with p show ?thesis by blast
qed

lemma splitWord_none:
  assumes "length (filter is_word w) = 0"
  shows "splitWord w = split_at w (length w div 2)"
  using assms split_parts [of w "length w div 2"] by (simp add: splitWord_def)





text \<open>
  Claim C3.  For every string, the unit without word-constituent characters and the empty
  string included, the three parts of \<open>splitWord\<close> concatenate to the string itself.
\<close>

theorem split_round_trip:
  "before (splitWord w) @ focal (splitWord w) @ after (splitWord w) = w"
proof (cases "1 \<le> length (filter is_word w)")
  case True
  from splitWord_found [OF True] obtain p where "splitWord w = split_at w p" by blast
  then show ?thesis by (simp only: split_at_concat)
next
  case False
  then have "length (filter is_word w) = 0" by (simp add: not_le)
  from splitWord_none [OF this] show ?thesis by (simp only: split_at_concat)
qed

text \<open>The round trip on \<open>"Hi,"\<close>.\<close>

theorem split_round_trip_witness:
  "splitWord (ascii ''Hi,'') = \<lparr>before = [], focal = ascii ''H'', after = ascii ''i,''\<rparr> \<and>
   before (splitWord (ascii ''Hi,'')) @ focal (splitWord (ascii ''Hi,'')) @ after (splitWord (ascii ''Hi,''))
     = ascii ''Hi,''"
proof -
  have "splitWord (ascii ''Hi,'') = \<lparr>before = [], focal = ascii ''H'', after = ascii ''i,''\<rparr>"
    by code_simp
  then show ?thesis using split_round_trip [of "ascii ''Hi,''"] by simp
qed

text \<open>
  Claim C10.  For a unit with at least one word-constituent character the rank never
  exceeds the number of such characters, so the scan ends with a focal position other than
  \<open>-1\<close> (the fallback branch is not taken); the position lies inside the unit, holds a
  word-constituent character, and is the one \<open>splitWord\<close> reads.
\<close>

theorem focal_scan_always_finds:
  assumes "1 \<le> length (filter is_word w)"
  shows "1 \<le> getFocalIndex w \<and> getFocalIndex w \<le> int (length (filter is_word w)) \<and>
         focalPos (scan w (getFocalIndex w) 0 scan_init) \<noteq> - 1 \<and>
         0 \<le> focalPos (scan w (getFocalIndex w) 0 scan_init) \<and>
         focalPos (scan w (getFocalIndex w) 0 scan_init) < int (length w) \<and>
         is_word (w ! nat (focalPos (scan w (getFocalIndex w) 0 scan_init))) \<and>
         focal (splitWord w) = [w ! nat (focalPos (scan w (getFocalIndex w) 0 scan_init))]"
proof -
  from scan_found [OF assms] obtain p where p: "p < length w"
    "focalPos (scan w (getFocalIndex w) 0 scan_init) = int p" "is_word (w ! p)" by blast
  have "filter is_word w \<noteq> []" using assms by auto
  then have "splitWord w = split_at w p"
    using p(2) by (simp add: splitWord_def Let_def split_parts)
  then have "focal (splitWord w) = [w ! p]" using p(1) by (simp add: split_at_def)
  with p spec_rank_bounds [OF assms] show ?thesis by (simp add: getFocalIndex_rank)
qed

text \<open>The scan on \<open>"Hi,"\<close>.\<close>

theorem focal_scan_always_finds_witness:
  "1 \<le> length (filter is_word (ascii ''Hi,'')) \<and>
   focalPos (scan (ascii ''Hi,'') (getFocalIndex (ascii ''Hi,'')) 0 scan_init) = 0 \<and>
   focal (splitWord (ascii ''Hi,'')) = ascii ''H''"
proof -
  have h: "1 \<le> length (filter is_word (ascii ''Hi,''))" by code_simp
  have "focalPos (scan (ascii ''Hi,'') (getFocalIndex (ascii ''Hi,'')) 0 scan_init) = 0" by code_simp
  with h focal_scan_always_finds [OF h] show ?thesis by (simp add: ascii_def)
qed


section \<open>Tokenizer: the pieces are the maximal runs\<close>

lemma token_runs_all_sep: "\<forall>c\<in>set s. is_sep c \<Longrightarrow> token_runs s = []"
  by (induction s) simp_all

lemma token_runs_nosep:
  "w \<noteq> [] \<Longrightarrow> \<forall>c\<in>set w. \<not> is_sep c \<Longrightarrow> token_runs w = [w]"
  by (cases w) (simp_all add: takeWhile_eq_all_conv [THEN iffD2] dropWhile_eq_Nil_conv [THEN iffD2])

lemma token_runs_dropWhile_sep: "token_runs (dropWhile is_sep cs) = token_runs cs"
  by (induction cs) simp_all

lemma token_runs_append_sep:
  assumes "\<forall>d\<in>set cur. \<not> is_sep d" "is_sep c"
  shows "token_runs (cur @ c # cs) = (if cur = [] then [] else [cur]) @ token_runs cs"
proof (cases cur)
  case Nil
  with assms show ?thesis by simp
next
  case (Cons a as)
  have as: "\<forall>d\<in>set as. \<not> is_sep d" and a: "\<not> is_sep a" using assms(1) Cons by simp_all
  have t: "takeWhile (\<lambda>d. \<not> is_sep d) (as @ c # cs) = as"
    using as assms(2) by (simp add: takeWhile_append2)
  have d: "dropWhile (\<lambda>d. \<not> is_sep d) (as @ c # cs) = c # cs"
    using as assms(2) by (simp add: dropWhile_append2)
  show ?thesis using a assms(2) by (simp add: Cons t d)
qed

lemma split_runs_filter:
  "\<forall>d\<in>set cur. \<not> is_sep d \<Longrightarrow>
     filter (\<lambda>word. length word > 0) (split_runs cur s) = token_runs (cur @ s)"
proof (induction cur s rule: split_runs.induct)
  case (1 cur)
  then show ?case by (cases "cur = []") (simp_all add: token_runs_nosep)
next
  case (2 cur c cs)
  show ?case
  proof (cases "is_sep c")
    case True
    have "filter (\<lambda>word. length word > 0) (split_runs [] (dropWhile is_sep cs))
            = token_runs (dropWhile is_sep cs)"
      using 2(1) [OF True] by simp
    then show ?thesis
      using True 2(3) by (simp add: token_runs_append_sep token_runs_dropWhile_sep)
  next
    case False
    then show ?thesis using 2(2) [OF False] 2(3) by simp
  qed
qed

lemma token_runs_append_seps:
  "\<forall>c\<in>set ys. is_sep c \<Longrightarrow> token_runs (xs @ ys) = token_runs xs"
proof (induction xs rule: token_runs.induct)
  case 1
  then show ?case by (simp add: token_runs_all_sep)
next
  case (2 c cs)
  show ?case
  proof (cases "is_sep c")
    case True
    with 2 show ?thesis by simp
  next
    case False
    let ?P = "\<lambda>d. \<not> is_sep d"
    show ?thesis
    proof (cases "\<forall>d\<in>set cs. ?P d")
      case True
      have ty: "takeWhile ?P ys = []" using 2(3) by (cases ys) simp_all
      have dy: "dropWhile ?P ys = ys" using 2(3) by (cases ys) simp_all
      have t: "takeWhile ?P (cs @ ys) = cs" "takeWhile ?P cs = cs"
        using True by (simp_all add: takeWhile_append2 ty)
      have d: "dropWhile ?P (cs @ ys) = ys" "dropWhile ?P cs = []"
        using True by (simp_all add: dropWhile_append2 dy)
      show ?thesis using False 2(3) by (simp add: t d token_runs_all_sep)
    next
      case nall: False
      then have t: "takeWhile ?P (cs @ ys) = takeWhile ?P cs"
        by (auto simp: takeWhile_append1)
      have d: "dropWhile ?P (cs @ ys) = dropWhile ?P cs @ ys"
        using nall by (auto simp: dropWhile_append1)
      show ?thesis using False 2(2) [OF False 2(3)] by (simp add: t d)
    qed
  qed
qed

lemma is_space_sep: "is_space c \<Longrightarrow> is_sep c"
  by (simp add: is_sep_def)

lemma token_runs_dropWhile_space: "token_runs (dropWhile is_space s) = token_runs s"
  by (induction s) (simp_all add: is_space_sep)

lemma token_runs_trim: "token_runs (trim t) = token_runs t"
proof -
  let ?s = "dropWhile is_space t"
  let ?a = "rev (dropWhile is_space (rev ?s))"
  let ?b = "rev (takeWhile is_space (rev ?s))"
  have "rev ?s = takeWhile is_space (rev ?s) @ dropWhile is_space (rev ?s)" by simp
  then have "rev (rev ?s) = rev (takeWhile is_space (rev ?s) @ dropWhile is_space (rev ?s))"
    by (rule arg_cong)
  then have e: "?s = ?a @ ?b" by (simp only: rev_append rev_rev_ident)
  have "\<forall>c\<in>set ?b. is_sep c" by (auto dest: set_takeWhileD intro: is_space_sep)
  then have A: "token_runs (?a @ ?b) = token_runs ?a" by (rule token_runs_append_seps)
  have B: "token_runs ?s = token_runs (?a @ ?b)" by (rule arg_cong [OF e])
  have "token_runs ?a = token_runs ?s" by (rule sym [OF trans [OF B A]])
  then show ?thesis unfolding trim_def by (simp only: token_runs_dropWhile_space)
qed

lemma parseText_token_runs: "parseText t = token_runs t"
  using split_runs_filter [of "[]" "trim t"] by (simp add: parseText_def token_runs_trim)

lemma concat_token_runs: "concat (token_runs t) = filter (\<lambda>c. \<not> is_sep c) t"
proof (induction t rule: token_runs.induct)
  case 1
  then show ?case by simp
next
  case (2 c cs)
  let ?P = "\<lambda>d. \<not> is_sep d"
  show ?case
  proof (cases "is_sep c")
    case True
    with 2 show ?thesis by simp
  next
    case False
    have "filter ?P cs = filter ?P (takeWhile ?P cs @ dropWhile ?P cs)" by simp
    also have "\<dots> = takeWhile ?P cs @ filter ?P (dropWhile ?P cs)"
      unfolding filter_append by (simp add: filter_id_conv) (auto dest: set_takeWhileD)
    finally show ?thesis using False 2(2) [OF False] by simp
  qed
qed

lemma token_runs_tokens:
  "w \<in> set (token_runs t) \<Longrightarrow> w \<noteq> [] \<and> (\<forall>c\<in>set w. \<not> is_sep c)"
proof (induction t rule: token_runs.induct)
  case 1
  then show ?case by simp
next
  case (2 c cs)
  show ?case
  proof (cases "is_sep c")
    case True
    with 2 show ?thesis by simp
  next
    case False
    from 2(3) False
    have "w = c # takeWhile (\<lambda>d. \<not> is_sep d) cs \<or>
          w \<in> set (token_runs (dropWhile (\<lambda>d. \<not> is_sep d) cs))" by simp
    then show ?thesis
    proof
      assume w: "w = c # takeWhile (\<lambda>d. \<not> is_sep d) cs"
      have "\<forall>d\<in>set (takeWhile (\<lambda>d. \<not> is_sep d) cs). \<not> is_sep d"
        by (blast dest: set_takeWhileD)
      with False show ?thesis by (simp add: w)
    next
      assume "w \<in> set (token_runs (dropWhile (\<lambda>d. \<not> is_sep d) cs))"
      then show ?thesis by (rule 2(2) [OF False])
    qed
  qed
qed


section \<open>Rounding: exponent, bounds, monotonicity and error\<close>

lemma bitlen_bounds:
  "0 < n \<Longrightarrow> 0 < bitlen n \<and> 2 ^ nat (bitlen n - 1) \<le> n \<and> n < 2 ^ nat (bitlen n)"
proof (induction n rule: bitlen.induct)
  case (1 n)
  have b: "bitlen n = bitlen (n div 2) + 1" using 1(2) by (subst bitlen.simps) simp
  show ?case
  proof (cases "0 < n div 2")
    case False
    then have n1: "n = 1" using 1(2) by linarith
    have "bitlen (n div 2) = 0" using False by (subst bitlen.simps) simp
    then show ?thesis using b n1 by simp
  next
    case True
    let ?k = "bitlen (n div 2)"
    from 1(1) [OF 1(2) True] have ih: "0 < ?k" "2 ^ nat (?k - 1) \<le> n div 2" "n div 2 < 2 ^ nat ?k"
      by simp_all
    have e: "nat ?k = Suc (nat (?k - 1))" using ih(1) by linarith
    have "(2::int) ^ nat ?k = 2 * 2 ^ nat (?k - 1)" by (subst e) simp
    also have "\<dots> \<le> 2 * (n div 2)" using ih(2) by simp
    also have "\<dots> \<le> n" by presburger
    finally have lo: "2 ^ nat ?k \<le> n" .
    have "n < 2 * (n div 2 + 1)" by presburger
    also have "\<dots> \<le> 2 * 2 ^ nat ?k" using ih(3) by simp
    finally have hi: "n < 2 ^ Suc (nat ?k)" by simp
    have "nat (?k + 1) = Suc (nat ?k)" using ih(1) by linarith
    with lo hi ih(1) show ?thesis by (simp add: b)
  qed
qed

lemma bitlen_rat:
  assumes "0 < n"
  shows "(2::rat) powi (bitlen n - 1) \<le> of_int n" "of_int n < (2::rat) powi (bitlen n)"
proof -
  from bitlen_bounds [OF assms]
  have k: "0 < bitlen n" and lo: "2 ^ nat (bitlen n - 1) \<le> n" and hi: "n < 2 ^ nat (bitlen n)"
    by simp_all
  have "(of_int (2 ^ nat (bitlen n - 1)) :: rat) \<le> of_int n" using lo by (simp only: of_int_le_iff)
  then have "(2::rat) ^ nat (bitlen n - 1) \<le> of_int n" by simp
  then show "(2::rat) powi (bitlen n - 1) \<le> of_int n" using k by (simp add: power_int_def)
  have "(of_int n :: rat) < of_int (2 ^ nat (bitlen n))" using hi by (simp only: of_int_less_iff)
  then have "of_int n < (2::rat) ^ nat (bitlen n)" by simp
  then show "of_int n < (2::rat) powi (bitlen n)" using k by (simp add: power_int_def)
qed

lemma ilog2_bounds:
  assumes "0 < x"
  shows "2 powi (ilog2 x) \<le> x \<and> x < 2 powi (ilog2 x + 1)"
proof -
  obtain p q where pq: "quotient_of x = (p, q)" by (cases "quotient_of x")
  have q: "0 < q" using quotient_of_denom_pos [OF pq] .
  have x: "x = of_int p / of_int q" using quotient_of_div [OF pq] .
  have p: "0 < p" using assms q unfolding x by (simp add: zero_less_divide_iff)
  define d where "d = bitlen p - bitlen q"
  note pr = bitlen_rat [OF p] and qr = bitlen_rat [OF q]
  have xq: "x * of_int q = of_int p" using q by (simp add: x)
  have up: "x < 2 powi (d + 1)"
  proof -
    have "x * 2 powi (bitlen q - 1) \<le> x * of_int q" using qr(1) assms by simp
    also have "\<dots> < 2 powi (bitlen p)" using pr(2) by (simp only: xq)
    finally have "x < 2 powi (bitlen p) / 2 powi (bitlen q - 1)" by (simp add: pos_less_divide_eq)
    also have "\<dots> = 2 powi (bitlen p - (bitlen q - 1))" by (simp add: power_int_diff)
    also have "bitlen p - (bitlen q - 1) = d + 1" by (simp add: d_def)
    finally show ?thesis .
  qed
  have lo: "2 powi (d - 1) \<le> x"
  proof -
    have "(2::rat) powi (bitlen p - 1) \<le> x * of_int q" using pr(1) by (simp only: xq)
    also have "\<dots> \<le> x * 2 powi (bitlen q)" using qr(2) assms by simp
    finally have "(2::rat) powi (bitlen p - 1) / 2 powi (bitlen q) \<le> x" by (simp add: pos_divide_le_eq)
    moreover have "(2::rat) powi (bitlen p - 1) / 2 powi (bitlen q) = 2 powi (bitlen p - 1 - bitlen q)"
      by (simp add: power_int_diff)
    moreover have "bitlen p - 1 - bitlen q = d - 1" by (simp add: d_def)
    ultimately show ?thesis by simp
  qed
  have e: "ilog2 x = (if 2 powi d \<le> x then d else d - 1)"
    by (simp add: ilog2_def pq Let_def d_def)
  show ?thesis
  proof (cases "2 powi d \<le> x")
    case True
    with up e show ?thesis by simp
  next
    case False
    with lo e show ?thesis by simp
  qed
qed

lemma ilog2_mono:
  assumes "0 < x" "x \<le> y"
  shows "ilog2 x \<le> ilog2 y"
proof (rule ccontr)
  assume "\<not> ilog2 x \<le> ilog2 y"
  then have "ilog2 y + 1 \<le> ilog2 x" by simp
  then have "(2::rat) powi (ilog2 y + 1) \<le> 2 powi (ilog2 x)" by (intro power_int_increasing) simp_all
  moreover have "y < 2 powi (ilog2 y + 1)" using ilog2_bounds [of y] assms by simp
  moreover have "2 powi (ilog2 x) \<le> x" using ilog2_bounds [OF assms(1)] by simp
  ultimately show False using assms(2) by linarith
qed

lemma round_half_even_cases:
  "round_half_even q = \<lfloor>q\<rfloor> \<and> q - of_int \<lfloor>q\<rfloor> \<le> 1 / 2 \<or>
   round_half_even q = \<lfloor>q\<rfloor> + 1 \<and> 1 / 2 \<le> q - of_int \<lfloor>q\<rfloor>"
  by (auto simp: round_half_even_def Let_def)

lemma round_half_even_error: "\<bar>of_int (round_half_even q) - q\<bar> \<le> 1 / 2"
proof -
  have "of_int \<lfloor>q\<rfloor> \<le> q" "q < of_int \<lfloor>q\<rfloor> + 1" by linarith+
  with round_half_even_cases [of q] show ?thesis by auto
qed

lemma round_half_even_ge: "of_int k \<le> q \<Longrightarrow> k \<le> round_half_even q"
proof -
  assume "of_int k \<le> q"
  then have "k \<le> \<lfloor>q\<rfloor>" by (simp add: le_floor_iff)
  with round_half_even_cases [of q] show ?thesis by auto
qed

lemma round_half_even_le:
  assumes "q \<le> of_int k"
  shows "round_half_even q \<le> k"
proof (cases "q = of_int k")
  case True
  then show ?thesis by (simp add: round_half_even_def)
next
  case False
  with assms have "q < of_int k" by simp
  then have "\<lfloor>q\<rfloor> < k" by (simp add: floor_less_iff)
  with round_half_even_cases [of q] show ?thesis by auto
qed

lemma round_half_even_mono:
  assumes "q \<le> q'"
  shows "round_half_even q \<le> round_half_even q'"
proof (cases "\<lfloor>q\<rfloor> = \<lfloor>q'\<rfloor>")
  case True
  with assms show ?thesis by (auto simp: round_half_even_def Let_def)
next
  case False
  with assms have "\<lfloor>q\<rfloor> + 1 \<le> \<lfloor>q'\<rfloor>" using floor_mono [OF assms] by linarith
  moreover have "round_half_even q \<le> \<lfloor>q\<rfloor> + 1" using round_half_even_cases [of q] by auto
  moreover have "\<lfloor>q'\<rfloor> \<le> round_half_even q'" using round_half_even_cases [of q'] by auto
  ultimately show ?thesis by linarith
qed

lemma fl_pos_eq:
  "0 < x \<Longrightarrow> fl x = of_int (round_half_even (x / 2 powi (ilog2 x - 52))) * 2 powi (ilog2 x - 52)"
  by (simp add: fl_def Let_def)

lemma scaled_bounds:
  assumes "0 < x"
  shows "2 ^ 52 \<le> x / 2 powi (ilog2 x - 52)" "x / 2 powi (ilog2 x - 52) \<le> 2 ^ 53"
proof -
  have e: "(2::rat) powi (ilog2 x) = 2 ^ 52 * 2 powi (ilog2 x - 52)"
    "(2::rat) powi (ilog2 x + 1) = 2 ^ 53 * 2 powi (ilog2 x - 52)"
    by (simp_all add: power_int_diff power_int_add)
  show "2 ^ 52 \<le> x / 2 powi (ilog2 x - 52)"
    using ilog2_bounds [OF assms] unfolding e by (simp add: pos_le_divide_eq)
  show "x / 2 powi (ilog2 x - 52) \<le> 2 ^ 53"
    using ilog2_bounds [OF assms] unfolding e by (simp add: pos_divide_le_eq)
qed

lemma fl_bounds:
  assumes "0 < x"
  shows "2 powi (ilog2 x) \<le> fl x" "fl x \<le> 2 powi (ilog2 x + 1)"
proof -
  let ?u = "(2::rat) powi (ilog2 x - 52)"
  have e: "(2::rat) powi (ilog2 x) = 2 ^ 52 * ?u" "(2::rat) powi (ilog2 x + 1) = 2 ^ 53 * ?u"
    by (simp_all add: power_int_diff power_int_add)
  have "of_int (2 ^ 52) \<le> x / ?u" "x / ?u \<le> of_int (2 ^ 53)"
    using scaled_bounds [OF assms] by simp_all
  then have "2 ^ 52 \<le> round_half_even (x / ?u)" "round_half_even (x / ?u) \<le> 2 ^ 53"
    using round_half_even_ge [of "2 ^ 52" "x / ?u"] round_half_even_le [of "x / ?u" "2 ^ 53"]
    by blast+
  then have "(of_int (2 ^ 52) :: rat) \<le> of_int (round_half_even (x / ?u))"
    "(of_int (round_half_even (x / ?u)) :: rat) \<le> of_int (2 ^ 53)"
    by (simp_all only: of_int_le_iff)
  then have "2 ^ 52 * ?u \<le> of_int (round_half_even (x / ?u)) * ?u"
    "of_int (round_half_even (x / ?u)) * ?u \<le> 2 ^ 53 * ?u"
    by simp_all
  then show "2 powi (ilog2 x) \<le> fl x" "fl x \<le> 2 powi (ilog2 x + 1)"
    unfolding e fl_pos_eq [OF assms] by simp_all
qed

lemma fl_pos: "0 < x \<Longrightarrow> 0 < fl x"
  using fl_bounds(1) [of x] zero_less_power_int [of "2::rat" "ilog2 x"] by linarith

lemma fl_nonneg: "0 \<le> x \<Longrightarrow> 0 \<le> fl x"
  using fl_pos [of x] by (cases "x = 0") (simp_all add: fl_def less_le)

lemma fl_mono_pos:
  assumes "0 < x" "x \<le> y"
  shows "fl x \<le> fl y"
proof (cases "ilog2 x = ilog2 y")
  case True
  have y: "0 < y" using assms by simp
  let ?u = "(2::rat) powi (ilog2 y - 52)"
  have "x / ?u \<le> y / ?u" using assms(2) by (simp add: divide_right_mono)
  then have "round_half_even (x / ?u) \<le> round_half_even (y / ?u)" by (rule round_half_even_mono)
  then have "(of_int (round_half_even (x / ?u)) :: rat) \<le> of_int (round_half_even (y / ?u))"
    by (simp only: of_int_le_iff)
  then have "of_int (round_half_even (x / ?u)) * ?u \<le> of_int (round_half_even (y / ?u)) * ?u"
    by simp
  then show ?thesis unfolding fl_pos_eq [OF assms(1)] fl_pos_eq [OF y] True .
next
  case False
  have y: "0 < y" using assms by simp
  from False ilog2_mono [OF assms] have "ilog2 x + 1 \<le> ilog2 y" by simp
  then have "(2::rat) powi (ilog2 x + 1) \<le> 2 powi (ilog2 y)" by (intro power_int_increasing) simp_all
  with fl_bounds(2) [OF assms(1)] fl_bounds(1) [OF y] show ?thesis by linarith
qed

lemma fl_mono: "0 \<le> x \<Longrightarrow> x \<le> y \<Longrightarrow> fl x \<le> fl y"
  using fl_mono_pos [of x y] fl_nonneg [of y] by (cases "x = 0") (simp_all add: fl_def less_le)

lemma fl_error:
  assumes "0 < x"
  shows "\<bar>fl x - x\<bar> \<le> x / 2 ^ 53"
proof -
  let ?u = "(2::rat) powi (ilog2 x - 52)"
  have u: "0 < ?u" by simp
  have "(of_int (round_half_even (x / ?u)) - x / ?u) * ?u = fl x - x"
    unfolding fl_pos_eq [OF assms] using u by (simp add: left_diff_distrib)
  then have "\<bar>fl x - x\<bar> = \<bar>of_int (round_half_even (x / ?u)) - x / ?u\<bar> * \<bar>?u\<bar>"
    by (simp only: abs_mult [symmetric])
  also have "\<bar>?u\<bar> = ?u" by simp
  finally have "\<bar>fl x - x\<bar> = \<bar>of_int (round_half_even (x / ?u)) - x / ?u\<bar> * ?u" .
  also have "\<dots> \<le> 1 / 2 * ?u"
    using round_half_even_error [of "x / ?u"] u by (intro mult_right_mono) simp_all
  also have "\<dots> \<le> 1 / 2 * (x / 2 ^ 52)"
    using scaled_bounds(1) [OF assms] u by (simp add: pos_le_divide_eq mult.commute)
  finally show ?thesis by simp
qed

lemma ilog2_unique:
  assumes "2 powi e \<le> x" "x < 2 powi (e + 1)"
  shows "ilog2 x = e"
proof -
  have x: "0 < x" using assms(1) zero_less_power_int [of "2::rat" e] by linarith
  note b = ilog2_bounds [OF x]
  have "\<not> ilog2 x + 1 \<le> e"
  proof
    assume "ilog2 x + 1 \<le> e"
    then have "(2::rat) powi (ilog2 x + 1) \<le> 2 powi e" by (intro power_int_increasing) simp_all
    with b assms show False by linarith
  qed
  moreover have "\<not> e + 1 \<le> ilog2 x"
  proof
    assume "e + 1 \<le> ilog2 x"
    then have "(2::rat) powi (e + 1) \<le> 2 powi (ilog2 x)" by (intro power_int_increasing) simp_all
    with b assms show False by linarith
  qed
  ultimately show ?thesis by linarith
qed

lemma fl_eval:
  assumes "2 powi e \<le> x" "x < 2 powi (e + 1)"
  shows "fl x = of_int (round_half_even (x / 2 powi (e - 52))) * 2 powi (e - 52)"
proof -
  have x: "0 < x" using assms(1) zero_less_power_int [of "2::rat" e] by linarith
  show ?thesis using fl_pos_eq [OF x] ilog2_unique [OF assms] by simp
qed


section \<open>Pacing: delays at 300 words per minute\<close>

lemma fl_consts:
  "fl (3 / 2) = 3 / 2" "fl (6 / 5) = 5404319552844595 / 4503599627370496"
  "fl (11 / 10) = 2476979795053773 / 2251799813685248" "fl 1 = 1"
  by code_simp+

lemma base_300:
  "fdiv 60 300 = 3602879701896397 / 18014398509481984"
  "fmul (3602879701896397 / 18014398509481984) 1000 = 200"
  by code_simp+

lemma mul_200:
  "fmul 200 (3 / 2) = 300" "fmul 200 1 = 200"
  "fmul 200 (2476979795053773 / 2251799813685248) = 7740561859543041 / 35184372088832"
  by code_simp+

lemma multiplier_examples:
  "spec_multiplier (ascii ''end.'') = 3 / 2" "spec_multiplier (ascii ''word,'') = 11 / 10"
  "spec_multiplier (ascii ''word'') = 1"
  by code_simp+

lemma getPauseMultiplier_spec: "getPauseMultiplier w = fl (spec_multiplier w)"
  by (simp add: getPauseMultiplier_def spec_multiplier_def)

lemma delay_300_examples:
  "getWordDelay 300 (ascii ''end.'') = 300"
  "getWordDelay 300 (ascii ''word,'') = 7740561859543041 / 35184372088832"
  "getWordDelay 300 (ascii ''word'') = 200"
  by (simp_all add: getWordDelay_def getPauseMultiplier_spec multiplier_examples fl_consts
      base_300 mul_200)

lemma spec_multiplier_pos: "0 < spec_multiplier w"
  by (simp add: spec_multiplier_def)

lemma getWordDelay_pos:
  assumes "0 < r"
  shows "0 < getWordDelay r w"
proof -
  have "0 < fl (60 / of_int r)" using assms by (intro fl_pos) simp
  then have "0 < fl (fl (60 / of_int r) * 1000)" by (intro fl_pos) simp
  moreover have "0 < fl (spec_multiplier w)" by (intro fl_pos spec_multiplier_pos)
  ultimately show ?thesis
    by (simp add: getWordDelay_def getPauseMultiplier_spec fmul_def fdiv_def fl_pos)
qed


section \<open>Accumulated rounding error\<close>

lemma eps_pos: "0 < eps"
  by (simp add: eps_def)

lemma growth_ge_1: "1 \<le> (1 + eps) ^ k"
  using eps_pos by (intro one_le_power) simp

lemma growth_mono: "j \<le> k \<Longrightarrow> (1 + eps) ^ j \<le> (1 + eps) ^ k"
  using eps_pos by (intro power_increasing) simp_all

lemma fl_error_nonneg: "0 \<le> a \<Longrightarrow> \<bar>fl a - a\<bar> \<le> a * eps"
  using fl_error [of a] by (cases "a = 0") (simp_all add: fl_def eps_def less_le)

lemma close_to_refl: "0 \<le> x \<Longrightarrow> close_to k x x"
  using growth_ge_1 [of k] by (simp add: close_to_def)

lemma close_to_upper:
  assumes "close_to k a x"
  shows "a \<le> (1 + eps) ^ k * x"
proof -
  have "a \<le> \<bar>a - x\<bar> + x" by linarith
  also have "\<dots> \<le> ((1 + eps) ^ k - 1) * x + x" using assms by (simp add: close_to_def)
  also have "\<dots> = (1 + eps) ^ k * x" by (simp add: algebra_simps)
  finally show ?thesis .
qed

lemma close_to_mono:
  assumes "close_to j a x" "j \<le> k"
  shows "close_to k a x"
proof -
  have x: "0 \<le> x" using assms(1) by (simp add: close_to_def)
  have "((1 + eps) ^ j - 1) * x \<le> ((1 + eps) ^ k - 1) * x"
    using growth_mono [OF assms(2)] x by (intro mult_right_mono) simp_all
  with assms(1) show ?thesis by (auto simp: close_to_def)
qed

lemma close_to_fl:
  assumes "close_to k a x"
  shows "close_to (Suc k) (fl a) x"
proof -
  let ?E = "(1 + eps) ^ k"
  have x: "0 \<le> x" and a: "0 \<le> a" and d: "\<bar>a - x\<bar> \<le> (?E - 1) * x"
    using assms by (simp_all add: close_to_def)
  have "\<bar>fl a - x\<bar> \<le> \<bar>fl a - a\<bar> + \<bar>a - x\<bar>" by linarith
  also have "\<dots> \<le> a * eps + (?E - 1) * x" using fl_error_nonneg [OF a] d by linarith
  also have "a * eps \<le> (?E * x) * eps"
    using close_to_upper [OF assms] eps_pos by (intro mult_right_mono) simp_all
  finally have "\<bar>fl a - x\<bar> \<le> (?E * x) * eps + (?E - 1) * x" by simp
  also have "\<dots> = ((1 + eps) ^ Suc k - 1) * x" by (simp add: algebra_simps)
  finally show ?thesis using x fl_nonneg [OF a] by (simp add: close_to_def)
qed

lemma close_to_mult:
  assumes "close_to j a x" "close_to k b y"
  shows "close_to (j + k) (a * b) (x * y)"
proof -
  let ?J = "(1 + eps) ^ j" and ?K = "(1 + eps) ^ k"
  have x: "0 \<le> x" and a: "0 \<le> a" and da: "\<bar>a - x\<bar> \<le> (?J - 1) * x"
    using assms(1) by (simp_all add: close_to_def)
  have y: "0 \<le> y" and b: "0 \<le> b" and db: "\<bar>b - y\<bar> \<le> (?K - 1) * y"
    using assms(2) by (simp_all add: close_to_def)
  have "a * b - x * y = a * (b - y) + (a - x) * y" by (simp add: algebra_simps)
  then have "\<bar>a * b - x * y\<bar> \<le> \<bar>a * (b - y)\<bar> + \<bar>(a - x) * y\<bar>" by (simp only: abs_triangle_ineq)
  also have "\<dots> = a * \<bar>b - y\<bar> + \<bar>a - x\<bar> * y" using a y by (simp add: abs_mult)
  also have "a * \<bar>b - y\<bar> \<le> (?J * x) * ((?K - 1) * y)"
    using close_to_upper [OF assms(1)] db a by (intro mult_mono) simp_all
  also have "\<bar>a - x\<bar> * y \<le> ((?J - 1) * x) * y" using da y by (intro mult_right_mono)
  finally have "\<bar>a * b - x * y\<bar> \<le> (?J * x) * ((?K - 1) * y) + ((?J - 1) * x) * y" by simp
  also have "\<dots> = ((1 + eps) ^ (j + k) - 1) * (x * y)" by (simp add: algebra_simps power_add)
  finally show ?thesis using x y a b by (simp add: close_to_def)
qed

lemma close_to_add:
  assumes "close_to j a x" "close_to k b y"
  shows "close_to (max j k) (a + b) (x + y)"
proof -
  have 1: "close_to (max j k) a x" using assms(1) by (rule close_to_mono) simp
  have 2: "close_to (max j k) b y" using assms(2) by (rule close_to_mono) simp
  let ?M = "(1 + eps) ^ max j k"
  have "\<bar>a + b - (x + y)\<bar> \<le> \<bar>a - x\<bar> + \<bar>b - y\<bar>" by linarith
  also have "\<dots> \<le> (?M - 1) * x + (?M - 1) * y" using 1 2 by (simp add: close_to_def)
  also have "\<dots> = (?M - 1) * (x + y)" by (simp add: algebra_simps)
  finally show ?thesis using 1 2 by (simp add: close_to_def)
qed

lemma getWordDelay_close:
  assumes "0 < r"
  shows "close_to 4 (getWordDelay r w) (spec_delay w r)"
proof -
  have "close_to 0 (60 / of_int r) (60 / of_int r)" using assms by (intro close_to_refl) simp
  then have "close_to 1 (fl (60 / of_int r)) (60 / of_int r)" using close_to_fl by fastforce
  moreover have "close_to 0 1000 1000" by (intro close_to_refl) simp
  ultimately have "close_to (1 + 0) (fl (60 / of_int r) * 1000) (60 / of_int r * 1000)"
    by (rule close_to_mult)
  then have "close_to (Suc (1 + 0)) (fl (fl (60 / of_int r) * 1000)) (60 / of_int r * 1000)"
    by (rule close_to_fl)
  moreover have "close_to (Suc 0) (fl (spec_multiplier w)) (spec_multiplier w)"
    using spec_multiplier_pos [of w] by (intro close_to_fl close_to_refl) simp
  ultimately have "close_to (Suc (1 + 0) + Suc 0)
      (fl (fl (60 / of_int r) * 1000) * fl (spec_multiplier w))
      (60 / of_int r * 1000 * spec_multiplier w)"
    by (rule close_to_mult)
  then have "close_to (Suc (Suc (1 + 0) + Suc 0))
      (fl (fl (fl (60 / of_int r) * 1000) * fl (spec_multiplier w)))
      (60 / of_int r * 1000 * spec_multiplier w)"
    by (rule close_to_fl)
  then show ?thesis
    by (simp add: getWordDelay_def getPauseMultiplier_spec fmul_def fdiv_def spec_delay_def
        numeral_eq_Suc)
qed

lemma growth_linear:
  "2 * of_nat k * eps \<le> 1 \<Longrightarrow> (1 + eps) ^ k \<le> 1 + 2 * of_nat k * eps"
proof (induction k)
  case 0
  then show ?case by simp
next
  case (Suc k)
  have e: "0 < eps" by (rule eps_pos)
  have k: "2 * of_nat k * eps \<le> 1" using Suc(2) e by (simp add: algebra_simps)
  have "(1 + eps) ^ Suc k = (1 + eps) * (1 + eps) ^ k" by simp
  also have "\<dots> \<le> (1 + eps) * (1 + 2 * of_nat k * eps)"
    using Suc(1) [OF k] e by (intro mult_left_mono) simp_all
  also have "\<dots> = 1 + 2 * of_nat k * eps + eps + (2 * of_nat k * eps) * eps"
    by (simp add: algebra_simps)
  also have "(2 * of_nat k * eps) * eps \<le> 1 * eps" using k e by (intro mult_right_mono) simp_all
  finally show ?case by (simp add: algebra_simps)
qed

lemma four_roundings: "(1 + eps) ^ 4 - 1 \<le> 1 / 2 ^ 50"
  using growth_linear [of 4] by (simp add: eps_def)

lemma getWordDelay_error:
  assumes "0 < r"
  shows "\<bar>getWordDelay r w - spec_delay w r\<bar> \<le> spec_delay w r / 2 ^ 50"
proof -
  from getWordDelay_close [OF assms]
  have x: "0 \<le> spec_delay w r"
    and d: "\<bar>getWordDelay r w - spec_delay w r\<bar> \<le> ((1 + eps) ^ 4 - 1) * spec_delay w r"
    by (simp_all add: close_to_def)
  have "((1 + eps) ^ 4 - 1) * spec_delay w r \<le> (1 / 2 ^ 50) * spec_delay w r"
    using four_roundings x by (rule mult_right_mono)
  with d show ?thesis by simp
qed


section \<open>Remaining time: the running total\<close>

lemma slice1_suffix: "0 \<le> i \<Longrightarrow> slice1 ws (i + 1) = drop (Suc (nat i)) ws"
  using slice1_drop [of ws "nat i"] by simp

lemma calculateRemainingTime_eq:
  assumes "0 \<le> currentIndex s"
  shows "calculateRemainingTime s =
           (if words s = [] \<or> int (length (words s)) - 1 \<le> currentIndex s then 0
            else \<lceil>fdiv (delay_total (speed s) (drop (Suc (nat (currentIndex s))) (words s))) 1000\<rceil>)"
  by (simp add: calculateRemainingTime_def delay_total_def slice1_suffix [OF assms] Let_def)

lemma foldl_delay_nonneg:
  "0 < r \<Longrightarrow> 0 \<le> a \<Longrightarrow> 0 \<le> foldl (\<lambda>acc word. fadd acc (getWordDelay r word)) a ws"
proof (induction ws arbitrary: a)
  case Nil
  then show ?case by simp
next
  case (Cons w ws)
  have "0 \<le> a + getWordDelay r w" using Cons(3) getWordDelay_pos [OF Cons(2), of w] by simp
  then have "0 \<le> fadd a (getWordDelay r w)" unfolding fadd_def by (rule fl_nonneg)
  then show ?case using Cons(1) [OF Cons(2)] by simp
qed

lemma foldl_delay_mono:
  "0 < r \<Longrightarrow> 0 \<le> a \<Longrightarrow> a \<le> b \<Longrightarrow>
     foldl (\<lambda>acc word. fadd acc (getWordDelay r word)) a ws
       \<le> foldl (\<lambda>acc word. fadd acc (getWordDelay r word)) b ws"
proof (induction ws arbitrary: a b)
  case Nil
  then show ?case by simp
next
  case (Cons w ws)
  have 0: "0 \<le> a + getWordDelay r w" using Cons(3) getWordDelay_pos [OF Cons(2), of w] by simp
  then have 1: "0 \<le> fadd a (getWordDelay r w)" unfolding fadd_def by (rule fl_nonneg)
  have 2: "fadd a (getWordDelay r w) \<le> fadd b (getWordDelay r w)"
    unfolding fadd_def using 0 Cons(4) by (intro fl_mono) simp_all
  show ?case using Cons(1) [OF Cons(2) 1 2] by simp
qed

lemma foldl_delay_pos:
  "0 < r \<Longrightarrow> 0 \<le> a \<Longrightarrow> ws \<noteq> [] \<or> 0 < a \<Longrightarrow>
     0 < foldl (\<lambda>acc word. fadd acc (getWordDelay r word)) a ws"
proof (induction ws arbitrary: a)
  case Nil
  then show ?case by simp
next
  case (Cons w ws)
  have "0 < a + getWordDelay r w" using Cons(3) getWordDelay_pos [OF Cons(2), of w] by simp
  then have 1: "0 < fadd a (getWordDelay r w)" unfolding fadd_def by (rule fl_pos)
  show ?case using Cons(1) [OF Cons(2), of "fadd a (getWordDelay r w)"] 1 by simp
qed

lemma delay_total_pos: "0 < r \<Longrightarrow> ws \<noteq> [] \<Longrightarrow> 0 < delay_total r ws"
  unfolding delay_total_def by (rule foldl_delay_pos) simp_all

lemma delay_total_nonneg: "0 < r \<Longrightarrow> 0 \<le> delay_total r ws"
  unfolding delay_total_def by (rule foldl_delay_nonneg) simp_all

lemma delay_total_Cons: "0 < r \<Longrightarrow> delay_total r ws \<le> delay_total r (w # ws)"
proof -
  assume r: "0 < r"
  have "0 \<le> 0 + getWordDelay r w" using getWordDelay_pos [OF r, of w] by simp
  then have "0 \<le> fadd 0 (getWordDelay r w)" unfolding fadd_def by (rule fl_nonneg)
  then show ?thesis
    unfolding delay_total_def using foldl_delay_mono [OF r, of 0 "fadd 0 (getWordDelay r w)" ws]
    by simp
qed

lemma seconds_mono:
  assumes "0 \<le> x" "x \<le> y"
  shows "\<lceil>fdiv x 1000\<rceil> \<le> \<lceil>fdiv y 1000\<rceil>"
proof -
  have "fl (x / 1000) \<le> fl (y / 1000)" using assms by (intro fl_mono) simp_all
  then show ?thesis unfolding fdiv_def by (rule ceiling_mono)
qed

lemma seconds_pos:
  assumes "0 < x"
  shows "1 \<le> \<lceil>fdiv x 1000\<rceil>"
proof -
  have "0 < fl (x / 1000)" using assms by (intro fl_pos) simp
  then show ?thesis unfolding fdiv_def by (simp add: less_ceiling_iff [symmetric] int_one_le_iff_zero_less)
qed

lemma seconds_nonneg: "0 \<le> x \<Longrightarrow> 0 \<le> \<lceil>fdiv x 1000\<rceil>"
proof -
  assume "0 \<le> x"
  then have "0 \<le> fl (x / 1000)" by (intro fl_nonneg) simp
  then show ?thesis unfolding fdiv_def by (simp add: ceiling_le_iff [symmetric] zero_le_ceiling)
qed

lemma foldl_delay_close:
  "0 < r \<Longrightarrow> close_to k a x \<Longrightarrow> 4 \<le> k \<Longrightarrow>
     close_to (k + length ws) (foldl (\<lambda>acc word. fadd acc (getWordDelay r word)) a ws)
       (x + (\<Sum>u\<leftarrow>ws. spec_delay u r))"
proof (induction ws arbitrary: k a x)
  case Nil
  then show ?case by simp
next
  case (Cons w ws)
  have "close_to (max k 4) (a + getWordDelay r w) (x + spec_delay w r)"
    using Cons(3) getWordDelay_close [OF Cons(2)] by (rule close_to_add)
  then have "close_to k (a + getWordDelay r w) (x + spec_delay w r)"
    using Cons(4) by (simp add: max_def)
  then have "close_to (Suc k) (fadd a (getWordDelay r w)) (x + spec_delay w r)"
    unfolding fadd_def by (rule close_to_fl)
  from Cons(1) [OF Cons(2) this] Cons(4) show ?case by (simp add: add.assoc)
qed

lemma delay_total_close:
  assumes "0 < r"
  shows "close_to (4 + length ws) (delay_total r ws) (\<Sum>u\<leftarrow>ws. spec_delay u r)"
proof -
  have "close_to 4 0 0" by (simp add: close_to_def)
  from foldl_delay_close [OF assms this, of ws] show ?thesis by (simp add: delay_total_def)
qed

lemma seconds_close:
  assumes "0 < r"
  shows "close_to (5 + length ws) (fdiv (delay_total r ws) 1000)
           ((\<Sum>u\<leftarrow>ws. spec_delay u r) / 1000)"
proof -
  have "close_to 0 (1 / 1000) (1 / 1000)" by (intro close_to_refl) simp
  with delay_total_close [OF assms, of ws]
  have "close_to (4 + length ws + 0) (delay_total r ws * (1 / 1000))
          ((\<Sum>u\<leftarrow>ws. spec_delay u r) * (1 / 1000))"
    by (rule close_to_mult)
  then have "close_to (Suc (4 + length ws + 0)) (fl (delay_total r ws * (1 / 1000)))
          ((\<Sum>u\<leftarrow>ws. spec_delay u r) * (1 / 1000))"
    by (rule close_to_fl)
  then show ?thesis by (simp add: fdiv_def)
qed

lemma spec_delay_le:
  assumes "100 \<le> r"
  shows "spec_delay u r \<le> 900"
proof -
  have r: "(100::rat) \<le> of_int r" using assms by (metis of_int_le_iff of_int_numeral)
  have m: "spec_multiplier u \<le> 3 / 2" "0 < spec_multiplier u"
    by (simp_all add: spec_multiplier_def)
  have "60 / of_int r * 1000 \<le> (600::rat)"
    using r by (simp add: pos_divide_le_eq)
  moreover have "0 \<le> 60 / of_int r * (1000::rat)" using r by simp
  ultimately have "60 / of_int r * 1000 * spec_multiplier u \<le> 600 * (3 / 2)"
    using m by (intro mult_mono) simp_all
  then show ?thesis by (simp add: spec_delay_def)
qed

lemma spec_delay_sum_le:
  assumes "100 \<le> r"
  shows "(\<Sum>u\<leftarrow>ws. spec_delay u r) \<le> 900 * of_nat (length ws)"
proof (induction ws)
  case Nil
  then show ?case by simp
next
  case (Cons w ws)
  with spec_delay_le [OF assms, of w] show ?case by (simp add: algebra_simps)
qed



lemma growth_small:
  assumes "n \<le> 1000000"
  shows "(1 + eps) ^ (5 + n) - 1 \<le> 1 / 2 ^ 30"
proof -
  have n: "(of_nat n :: rat) \<le> 1000000" using assms by (metis of_nat_le_iff of_nat_numeral)
  have k: "(of_nat (5 + n) :: rat) \<le> 1000005" using n by simp
  have e: "0 < eps" by (rule eps_pos)
  have "2 * of_nat (5 + n) * eps \<le> 2 * 1000005 * eps"
    using k e by (intro mult_right_mono mult_left_mono) simp_all
  also have "\<dots> \<le> 1 / 2 ^ 30" by (simp add: eps_def)
  finally have g: "2 * of_nat (5 + n) * eps \<le> 1 / 2 ^ 30" .
  then have "2 * of_nat (5 + n) * eps \<le> 1" by simp
  from growth_linear [OF this] g show ?thesis by simp
qed

lemma total_near:
  assumes "100 \<le> r" "length ws \<le> 1000000"
  shows "\<bar>delay_total r ws - (\<Sum>u\<leftarrow>ws. spec_delay u r)\<bar> \<le> 17 / 20"
proof -
  let ?X = "\<Sum>u\<leftarrow>ws. spec_delay u r"
  have r: "0 < r" using assms(1) by simp
  have n: "(of_nat (length ws) :: rat) \<le> 1000000"
    using assms(2) by (metis of_nat_le_iff of_nat_numeral)
  from delay_total_close [OF r, of ws]
  have X: "0 \<le> ?X" and d: "\<bar>delay_total r ws - ?X\<bar> \<le> ((1 + eps) ^ (4 + length ws) - 1) * ?X"
    by (simp_all add: close_to_def)
  have "(1 + eps) ^ (4 + length ws) \<le> (1 + eps) ^ (5 + length ws)" by (rule growth_mono) simp
  with growth_small [OF assms(2)] have E: "(1 + eps) ^ (4 + length ws) - 1 \<le> 1 / 2 ^ 30" by simp
  have g0: "0 \<le> (1 + eps) ^ (4 + length ws) - 1" using growth_ge_1 [of "4 + length ws"] by simp
  have "?X \<le> 900 * of_nat (length ws)" by (rule spec_delay_sum_le [OF assms(1)])
  also have "\<dots> \<le> 900000000" using n by simp
  finally have Xb: "?X \<le> 900000000" .
  have "((1 + eps) ^ (4 + length ws) - 1) * ?X \<le> (1 / 2 ^ 30) * 900000000"
    using E Xb X g0 by (intro mult_mono) simp_all
  also have "\<dots> \<le> 17 / 20" by simp
  finally show ?thesis using d by simp
qed

lemma seconds_near:
  assumes "100 \<le> r" "length ws \<le> 1000000"
  shows "\<bar>fdiv (delay_total r ws) 1000 - (\<Sum>u\<leftarrow>ws. spec_delay u r) / 1000\<bar> \<le> 1 / 1000"
proof -
  let ?Y = "(\<Sum>u\<leftarrow>ws. spec_delay u r) / 1000"
  let ?y = "fdiv (delay_total r ws) 1000"
  have r: "0 < r" using assms(1) by simp
  have n: "(of_nat (length ws) :: rat) \<le> 1000000"
    using assms(2) by (metis of_nat_le_iff of_nat_numeral)
  from seconds_close [OF r, of ws]
  have Y: "0 \<le> ?Y" and d: "\<bar>?y - ?Y\<bar> \<le> ((1 + eps) ^ (5 + length ws) - 1) * ?Y"
    by (simp_all add: close_to_def)
  note E = growth_small [OF assms(2)]
  have g0: "0 \<le> (1 + eps) ^ (5 + length ws) - 1" using growth_ge_1 [of "5 + length ws"] by simp
  have "?Y \<le> 900 * of_nat (length ws) / 1000" using spec_delay_sum_le [OF assms(1), of ws] by simp
  also have "\<dots> \<le> 900000" using n by simp
  finally have Yb: "?Y \<le> 900000" .
  have "((1 + eps) ^ (5 + length ws) - 1) * ?Y \<le> (1 / 2 ^ 30) * 900000"
    using E Yb Y g0 by (intro mult_mono) simp_all
  also have "\<dots> \<le> 1 / 1000" by simp
  finally show ?thesis using d by simp
qed

lemma delay_near:
  assumes "100 \<le> r"
  shows "\<bar>getWordDelay r w - spec_delay w r\<bar> \<le> 1 / 1000" "getWordDelay r w \<le> 901"
proof -
  have r: "0 < r" using assms by simp
  have p: "0 \<le> spec_delay w r" using getWordDelay_close [OF r, of w] by (simp add: close_to_def)
  have "spec_delay w r / 2 ^ 50 \<le> 900 / 2 ^ 50" using spec_delay_le [OF assms, of w] by simp
  also have "\<dots> \<le> (1 / 1000 :: rat)" by simp
  finally show 1: "\<bar>getWordDelay r w - spec_delay w r\<bar> \<le> 1 / 1000"
    using getWordDelay_error [OF r, of w] by simp
  from 1 spec_delay_le [OF assms, of w] show "getWordDelay r w \<le> 901" by linarith
qed


section \<open>Remaining time: two sessions evaluated\<close>

lemma ends_with_any_chars:
  "ends_with_any ''.!?'' w \<longleftrightarrow> w \<noteq> [] \<and> last w \<in> {0x2E, 0x21, 0x3F}"
  "ends_with_any '';:'' w \<longleftrightarrow> w \<noteq> [] \<and> last w \<in> {0x3B, 0x3A}"
  "ends_with_any '','' w \<longleftrightarrow> w \<noteq> [] \<and> last w = 0x2C"
  by (auto simp: ends_with_any_def ascii_def)

lemma spec_multiplier_cases:
  "spec_multiplier w =
     (if w \<noteq> [] \<and> last w \<in> {0x2E, 0x21, 0x3F} then 3 / 2
      else if w \<noteq> [] \<and> last w \<in> {0x3B, 0x3A} then 6 / 5
      else if w \<noteq> [] \<and> last w = 0x2C then 11 / 10
      else 1)"
  unfolding spec_multiplier_def ends_with_any_chars by (rule refl)


lemma sum_450:
  "fadd 0 200 = 200" "fadd 200 200 = 400" "fadd 400 200 = 600"
  "fadd 600 (4691249611844267 / 35184372088832) = 6450468216285867 / 8796093022208"
  "fadd (6450468216285867 / 8796093022208) (4691249611844267 / 35184372088832)
     = 3811640309623467 / 4398046511104"
  "fadd (3811640309623467 / 4398046511104) (4691249611844267 / 35184372088832)
     = 8796093022208001 / 8796093022208"
  by code_simp+

lemma seconds_examples:
  "fdiv (8796093022208001 / 8796093022208) 1000 = 4503599627370497 / 4503599627370496"
  "fdiv 400 1000 = 3602879701896397 / 9007199254740992"
  "fdiv 200 1000 = 3602879701896397 / 18014398509481984"
  by code_simp+

lemma multipliers_450:
  "spec_multiplier (ascii ''a.'') = 3 / 2" "spec_multiplier (ascii ''b.'') = 3 / 2"
  "spec_multiplier (ascii ''c.'') = 3 / 2" "spec_multiplier (ascii ''d'') = 1"
  "spec_multiplier (ascii ''e'') = 1" "spec_multiplier (ascii ''f'') = 1"
  "spec_multiplier (ascii ''a'') = 1" "spec_multiplier (ascii ''b'') = 1"
  "spec_multiplier (ascii ''c'') = 1"
  by code_simp+


lemma delays_abc:
  "getWordDelay 300 (ascii ''a'') = 200" "getWordDelay 300 (ascii ''b'') = 200"
  "getWordDelay 300 (ascii ''c'') = 200"
  by (simp_all add: getWordDelay_def getPauseMultiplier_spec multipliers_450 fl_consts base_300
      mul_200)

lemma ceiling_examples:
  "\<lceil>(4503599627370497 / 4503599627370496 :: rat)\<rceil> = 2"
  "\<lceil>(3602879701896397 / 9007199254740992 :: rat)\<rceil> = 1"
  "\<lceil>(3602879701896397 / 18014398509481984 :: rat)\<rceil> = 1"
  by (simp_all add: ceiling_eq_iff)



lemma remaining_abc:
  "calculateRemainingTime reading_abc = 1" "calculateRemainingTime (wordTimer reading_abc) = 1"
proof -
  have T: "delay_total 300 (map ascii [''b'', ''c'']) = 400"
    "delay_total 300 (map ascii [''c'']) = 200"
    by (simp_all add: delay_total_def delays_abc sum_450)
  have w: "wordTimer reading_abc = reading_abc\<lparr>currentIndex := 1\<rparr>"
    by (simp add: wordTimer_def reading_abc_def)
  have "calculateRemainingTime reading_abc = \<lceil>fdiv (delay_total 300 (map ascii [''b'', ''c''])) 1000\<rceil>"
    using calculateRemainingTime_eq [of reading_abc] by (simp add: reading_abc_def)
  then show "calculateRemainingTime reading_abc = 1"
    unfolding T seconds_examples ceiling_examples .
  have "calculateRemainingTime (reading_abc\<lparr>currentIndex := 1\<rparr>)
          = \<lceil>fdiv (delay_total 300 (map ascii [''c''])) 1000\<rceil>"
    using calculateRemainingTime_eq [of "reading_abc\<lparr>currentIndex := 1\<rparr>"]
    by (simp add: reading_abc_def)
  then show "calculateRemainingTime (wordTimer reading_abc) = 1"
    unfolding w T seconds_examples ceiling_examples .
qed


section \<open>Controller: invariants of the transitions\<close>

lemma trim_example: "trim (ascii ''a b c'') = ascii ''a b c''"
  by code_simp

lemma parse_example: "parseText (ascii ''a b c'') = [ascii ''a'', ascii ''b'', ascii ''c'']"
  by code_simp

lemma ascii_nonempty: "ascii ''a b c'' \<noteq> []"
  by (simp add: ascii_def)

lemma paused_example_eq:
  "paused_example = \<lparr>inputText = ascii ''a b c'', words = [ascii ''a'', ascii ''b'', ascii ''c''],
                      currentIndex = 1, isPlaying = False, speed = 300, countdown = None\<rparr>"
  by (simp add: paused_example_def run_def initial_def handleStart_def trim_example parse_example
      ascii_nonempty countdownTick_def countdownZero_def wordTimer_def togglePlay_def)

lemma parse_450: "parseText (ascii ''Go a. b. c. d e f'') = units_450"
  unfolding units_450_def by code_simp

lemma trim_450: "trim (ascii ''Go a. b. c. d e f'') \<noteq> []"
  by code_simp

lemma reading_450_reached:
  "run [SetInputText (ascii ''Go a. b. c. d e f''), KeyArrowRight, KeyArrowRight, KeyArrowRight,
        Start, CountdownTick, CountdownTick, CountdownTick] initial = reading_450"
  by (simp add: reading_450_def run_def initial_def handleStart_def trim_450 parse_450
      adjustSpeed_def countdownTick_def countdownZero_def)

lemma reading_abc_reached:
  "run [SetInputText (ascii ''a b c''), Start, SkipCountdown] initial = reading_abc"
  by (simp add: reading_abc_def run_def initial_def handleStart_def trim_example parse_example
      ascii_nonempty skipCountdown_def)

lemma toggle_resumes:
  "paused s \<Longrightarrow> step Toggle s = s\<lparr>isPlaying := True\<rparr>"
  by (simp add: paused_def togglePlay_def)

lemma position_ok_initial: "position_ok initial"
  by (simp add: position_ok_def initial_def)

lemma position_ok_step:
  assumes "position_ok s"
  shows "position_ok (step ev s)"
proof (cases ev)
  case Start
  with assms show ?thesis
    by (cases "parseText (inputText s)") (auto simp: position_ok_def handleStart_def)
next
  case (TrySample t)
  then show ?thesis by (cases "parseText t") (auto simp: position_ok_def trySample_def)
next
  case WordTimer
  with assms show ?thesis by (auto simp: position_ok_def wordTimer_def)
next
  case CountdownTick
  with assms show ?thesis
    by (auto simp: position_ok_def countdownTick_def countdownZero_def split: option.splits)
qed (use assms in \<open>auto simp: position_ok_def togglePlay_def handleStop_def handleReset_def
      adjustSpeed_def skipCountdown_def keySpace_def backToInput_def sliderChange_def\<close>)

lemma position_ok_run: "position_ok s \<Longrightarrow> position_ok (run evs s)"
proof (induction evs arbitrary: s)
  case Nil
  then show ?case by (simp add: run_def)
next
  case (Cons ev evs)
  from Cons(1) [OF position_ok_step [OF Cons(2), of ev]] show ?case by (simp add: run_def)
qed

lemma last_unit_finishes:
  "isPlaying s \<Longrightarrow> words s \<noteq> [] \<Longrightarrow> currentIndex s = int (length (words s)) - 1 \<Longrightarrow>
     step WordTimer s = s\<lparr>isPlaying := False\<rparr>"
  by (simp add: wordTimer_def)

lemma speed_unchanged:
  "(\<forall>d. ev \<noteq> AdjustSpeed d) \<Longrightarrow> ev \<noteq> KeyArrowLeft \<Longrightarrow> ev \<noteq> KeyArrowRight \<Longrightarrow>
     (\<forall>v. ev \<noteq> SliderChange v) \<Longrightarrow> speed (step ev s) = speed s"
  by (cases ev)
    (auto simp: handleStart_def togglePlay_def handleStop_def handleReset_def skipCountdown_def
      keySpace_def countdownTick_def countdownZero_def wordTimer_def backToInput_def trySample_def
      split: option.splits)

lemma rate_ok_step: "rate_ok s \<Longrightarrow> wf_event ev \<Longrightarrow> rate_ok (step ev s)"
proof (cases "(\<forall>d. ev \<noteq> AdjustSpeed d) \<and> ev \<noteq> KeyArrowLeft \<and> ev \<noteq> KeyArrowRight \<and>
    (\<forall>v. ev \<noteq> SliderChange v)")
  case True
  assume "rate_ok s"
  with True speed_unchanged [of ev s] show ?thesis by (simp add: rate_ok_def)
next
  case False
  assume "wf_event ev"
  with False show ?thesis
    by (auto simp: rate_ok_def adjustSpeed_def sliderChange_def wf_event_def slider_value_def)
qed

lemma rate_ok_run: "rate_ok s \<Longrightarrow> \<forall>ev\<in>set evs. wf_event ev \<Longrightarrow> rate_ok (run evs s)"
proof (induction evs arbitrary: s)
  case Nil
  then show ?case by (simp add: run_def)
next
  case (Cons ev evs)
  have "rate_ok (step ev s)" using Cons(2,3) by (intro rate_ok_step) simp_all
  from Cons(1) [OF this] Cons(3) show ?case by (simp add: run_def)
qed

lemma rate_ok_initial: "rate_ok initial"
  by (simp add: rate_ok_def initial_def)


section \<open>Tokenizer and pacing: the claims\<close>

text \<open>
  Claim C4.  For every text, \<open>parseText\<close> (trim, split on every maximal run of white space
  or hyphens, drop the empty pieces) yields the maximal runs of the other characters: every
  token is non-empty and free of separators, the tokens concatenate to the text without its
  separators (nothing but white space and hyphens is removed), a blank text gives no token,
  and \<open>"a-b  c"\<close> gives \<open>a\<close>, \<open>b\<close>, \<open>c\<close>.
\<close>

theorem tokenize_maximal_runs:
  "parseText t = token_runs t \<and>
   concat (parseText t) = filter (\<lambda>c. \<not> is_sep c) t \<and>
   (\<forall>w\<in>set (parseText t). w \<noteq> [] \<and> (\<forall>c\<in>set w. \<not> is_sep c)) \<and>
   ((\<forall>c\<in>set t. is_space c) \<longrightarrow> parseText t = []) \<and>
   parseText (ascii ''a-b  c'') = [ascii ''a'', ascii ''b'', ascii ''c''] \<and>
   parseText (ascii ''  '') = [] \<and> parseText [] = []"
proof -
  have 1: "parseText t = token_runs t" by (rule parseText_token_runs)
  have 2: "concat (parseText t) = filter (\<lambda>c. \<not> is_sep c) t"
    unfolding 1 by (rule concat_token_runs)
  have 3: "\<forall>w\<in>set (parseText t). w \<noteq> [] \<and> (\<forall>c\<in>set w. \<not> is_sep c)"
    unfolding 1 using token_runs_tokens by blast
  have 4: "(\<forall>c\<in>set t. is_space c) \<longrightarrow> parseText t = []"
    unfolding 1 using token_runs_all_sep [of t] is_space_sep by blast
  have 5: "parseText (ascii ''a-b  c'') = [ascii ''a'', ascii ''b'', ascii ''c'']" by code_simp
  have 6: "parseText (ascii ''  '') = []" by code_simp
  have 7: "parseText [] = []" by code_simp
  from 1 2 3 4 5 6 7 show ?thesis by blast
qed

text \<open>The tokenizer on a blank text and on \<open>"well-known, x"\<close>.\<close>

theorem tokenize_maximal_runs_witness:
  "ascii ''  '' = [0x20, 0x20] \<and> is_space 0x20 \<and> parseText (ascii ''  '') = [] \<and>
   parseText (ascii ''well-known, x'') = [ascii ''well'', ascii ''known,'', ascii ''x''] \<and>
   ascii ''known,'' \<noteq> [] \<and> \<not> is_sep 0x2C \<and>
   concat (parseText (ascii ''well-known, x'')) = ascii ''wellknown,x''"
proof -
  have a: "ascii ''  '' = [0x20, 0x20]" "is_space 0x20" by (simp_all add: ascii_def is_space_def)
  then have h: "\<forall>c\<in>set (ascii ''  ''). is_space c" by simp
  have p: "parseText (ascii ''well-known, x'') = [ascii ''well'', ascii ''known,'', ascii ''x'']"
    by code_simp
  have k: "ascii ''known,'' \<in> set (parseText (ascii ''well-known, x''))" unfolding p by simp
  have c: "0x2C \<in> set (ascii ''known,'')" by (simp add: ascii_def)
  have f: "filter (\<lambda>c. \<not> is_sep c) (ascii ''well-known, x'') = ascii ''wellknown,x''" by code_simp
  from tokenize_maximal_runs [of "ascii ''  ''"] h have 1: "parseText (ascii ''  '') = []" by blast
  from tokenize_maximal_runs [of "ascii ''well-known, x''"] k c
  have 2: "ascii ''known,'' \<noteq> [] \<and> \<not> is_sep 0x2C" by blast
  from tokenize_maximal_runs [of "ascii ''well-known, x''"]
  have 3: "concat (parseText (ascii ''well-known, x'')) = ascii ''wellknown,x''" unfolding f by blast
  from a 1 2 3 p show ?thesis by blast
qed

text \<open>
  Claim C2 as stated fails at the rate 300 on \<open>"word,"\<close>: the exact product is 220, and the
  page computes \<open>200 * 1.1\<close> in binary64, where the literal \<open>1.1\<close> is
  \<open>2476979795053773 / 2^51\<close> and the product rounds to \<open>220 + 2^-45\<close>, printed
  220.00000000000003.
\<close>

theorem delay_word_comma_counterexample:
  "spec_delay (ascii ''word,'') 300 = 220 \<and>
   getWordDelay 300 (ascii ''word,'') = 220 + 1 / 2 ^ 45 \<and>
   getWordDelay 300 (ascii ''word,'') \<noteq> spec_delay (ascii ''word,'') 300"
proof -
  have s: "spec_delay (ascii ''word,'') 300 = 220"
    by (simp add: spec_delay_def multiplier_examples)
  have c: "getWordDelay 300 (ascii ''word,'') = 220 + 1 / 2 ^ 45"
    unfolding delay_300_examples by simp
  show ?thesis unfolding s c by simp
qed

text \<open>
  Claim C2, amended.  For every unit and every rate in \<open>[100, 1000]\<close>, \<open>getWordDelay\<close> is
  \<open>(60 / rate) * 1000\<close> times the multiplier of the trailing character (\<open>. ! ?\<close> 1.5, else
  \<open>; :\<close> 1.2, else \<open>,\<close> 1.1, else 1.0), each operation and each literal rounded to
  binary64; it is positive and within the relative error \<open>2^-50\<close> of the exact product; at
  the rate 300 the delay of \<open>"end."\<close> is 300, of \<open>"word"\<close> 200, and of \<open>"word,"\<close>
  \<open>220 + 2^-45\<close>.
\<close>

theorem delay_is_rounded_product:
  assumes "100 \<le> r" "r \<le> 1000"
  shows "getWordDelay r w = fmul (fmul (fdiv 60 (of_int r)) 1000) (fl (spec_multiplier w)) \<and>
         spec_multiplier w =
           (if w \<noteq> [] \<and> last w \<in> {0x2E, 0x21, 0x3F} then 3 / 2
            else if w \<noteq> [] \<and> last w \<in> {0x3B, 0x3A} then 6 / 5
            else if w \<noteq> [] \<and> last w = 0x2C then 11 / 10
            else 1) \<and>
         0 < getWordDelay r w \<and>
         \<bar>getWordDelay r w - spec_delay w r\<bar> \<le> spec_delay w r / 2 ^ 50 \<and>
         getWordDelay 300 (ascii ''end.'') = 300 \<and>
         getWordDelay 300 (ascii ''word'') = 200 \<and>
         getWordDelay 300 (ascii ''word,'') = 220 + 1 / 2 ^ 45"
proof -
  have r: "0 < r" using assms(1) by simp
  have 1: "getWordDelay r w = fmul (fmul (fdiv 60 (of_int r)) 1000) (fl (spec_multiplier w))"
    by (simp add: getWordDelay_def getPauseMultiplier_spec)
  have 5: "getWordDelay 300 (ascii ''word,'') = 220 + 1 / 2 ^ 45"
    unfolding delay_300_examples by simp
  from 1 spec_multiplier_cases [of w] getWordDelay_pos [OF r, of w] getWordDelay_error [OF r, of w]
    delay_300_examples(1) delay_300_examples(3) 5
  show ?thesis by blast
qed

text \<open>The delay of \<open>"word,"\<close> at the rate 300.\<close>

theorem delay_is_rounded_product_witness:
  "(100::int) \<le> 300 \<and> (300::int) \<le> 1000 \<and>
   0 < getWordDelay 300 (ascii ''word,'') \<and>
   \<bar>getWordDelay 300 (ascii ''word,'') - spec_delay (ascii ''word,'') 300\<bar>
     \<le> spec_delay (ascii ''word,'') 300 / 2 ^ 50"
proof -
  have h: "(100::int) \<le> 300" "(300::int) \<le> 1000" by simp_all
  from delay_is_rounded_product [OF h, of "ascii ''word,''"] h show ?thesis by blast
qed




text \<open>
  Claim C7 as stated fails on \<open>a b c\<close> at the rate 300: playing at the first unit, the
  remaining time is 1 second before and 1 second after the advance to \<open>b\<close>, a decrease of
  0, while the delay of \<open>b\<close> is 200 milliseconds.
\<close>

theorem remaining_time_step_counterexample:
  "isPlaying reading_abc \<and>
   currentIndex (wordTimer reading_abc) = currentIndex reading_abc + 1 \<and>
   calculateRemainingTime reading_abc - calculateRemainingTime (wordTimer reading_abc) = 0 \<and>
   getWordDelay (speed reading_abc) (words reading_abc ! 1) = 200 \<and>
   of_int (calculateRemainingTime reading_abc - calculateRemainingTime (wordTimer reading_abc))
     \<noteq> getWordDelay (speed reading_abc) (words reading_abc ! 1)"
proof -
  have d: "getWordDelay (speed reading_abc) (words reading_abc ! 1) = 200"
    using delays_abc(2) by (simp add: reading_abc_def)
  have p: "isPlaying reading_abc"
    "currentIndex (wordTimer reading_abc) = currentIndex reading_abc + 1"
    by (simp_all add: reading_abc_def wordTimer_def)
  show ?thesis unfolding d remaining_abc using p by simp
qed

text \<open>
  Claim C7, amended.  While playing before the last unit at a rate in \<open>[100, 1000]\<close>, the
  expiry of the word timer advances the position by one.  The remaining time is the
  ceiling in seconds of the running total of the delays after the position: it is at least
  1 before the advance, never negative after it, and does not increase.  For a sequence of
  at most a million units it falls by at most the delay of the next unit rounded up to
  whole seconds, which is 1, and the running total in milliseconds falls by the delay of
  the next unit up to a rounding error of at most 2.
\<close>

theorem remaining_time_never_increases:
  assumes "rate_ok s" "0 \<le> currentIndex s" "isPlaying s"
    "currentIndex s < int (length (words s)) - 1"
  shows "currentIndex (wordTimer s) = currentIndex s + 1 \<and>
         calculateRemainingTime (wordTimer s) \<le> calculateRemainingTime s \<and>
         0 \<le> calculateRemainingTime (wordTimer s) \<and>
         1 \<le> calculateRemainingTime s \<and>
         calculateRemainingTime s
           = \<lceil>fdiv (delay_total (speed s) (drop (nat (currentIndex s) + 1) (words s))) 1000\<rceil> \<and>
         calculateRemainingTime (wordTimer s)
           = \<lceil>fdiv (delay_total (speed s) (drop (nat (currentIndex s) + 2) (words s))) 1000\<rceil> \<and>
         \<lceil>getWordDelay (speed s) (words s ! nat (currentIndex s + 1)) / 1000\<rceil> = 1 \<and>
         (length (words s) \<le> 1000000 \<longrightarrow>
            calculateRemainingTime s - calculateRemainingTime (wordTimer s)
              \<le> \<lceil>getWordDelay (speed s) (words s ! nat (currentIndex s + 1)) / 1000\<rceil> \<and>
            \<bar>delay_total (speed s) (drop (nat (currentIndex s) + 1) (words s))
               - delay_total (speed s) (drop (nat (currentIndex s) + 2) (words s))
               - getWordDelay (speed s) (words s ! nat (currentIndex s + 1))\<bar> \<le> 2)"
proof -
  let ?n = "nat (currentIndex s)"
  let ?r = "speed s"
  let ?next = "words s ! Suc ?n"
  let ?B = "drop (Suc ?n) (words s)"
  let ?A = "drop (Suc (Suc ?n)) (words s)"
  let ?d = "getWordDelay ?r ?next"
  have r: "0 < ?r" and r100: "100 \<le> ?r" using assms(1) by (simp_all add: rate_ok_def)
  have len: "Suc ?n < length (words s)" using assms(2,4) by linarith
  have w: "wordTimer s = s\<lparr>currentIndex := currentIndex s + 1\<rparr>"
    using assms(2,3,4) by (auto simp: wordTimer_def)
  have n1: "nat (currentIndex s + 1) = Suc ?n" using assms(2) by simp
  have before: "calculateRemainingTime s = \<lceil>fdiv (delay_total ?r ?B) 1000\<rceil>"
    using calculateRemainingTime_eq [OF assms(2)] assms(4) len by auto
  have after_if: "calculateRemainingTime (wordTimer s) =
      (if int (length (words s)) - 1 \<le> currentIndex s + 1 then 0
       else \<lceil>fdiv (delay_total ?r ?A) 1000\<rceil>)"
    using calculateRemainingTime_eq [of "s\<lparr>currentIndex := currentIndex s + 1\<rparr>"] assms(2) len
    by (auto simp: w n1)
  have after: "calculateRemainingTime (wordTimer s) = \<lceil>fdiv (delay_total ?r ?A) 1000\<rceil>"
  proof (cases "int (length (words s)) - 1 \<le> currentIndex s + 1")
    case True
    then have "length (words s) \<le> Suc (Suc ?n)" using assms(2) by linarith
    then have "?A = []" by simp
    then have "\<lceil>fdiv (delay_total ?r ?A) 1000\<rceil> = 0"
      by (simp add: delay_total_def fdiv_def fl_def)
    with True after_if show ?thesis by simp
  next
    case False
    with after_if show ?thesis by simp
  qed
  have split: "?B = ?next # ?A" using len by (simp add: Cons_nth_drop_Suc)
  have le: "delay_total ?r ?A \<le> delay_total ?r ?B"
    unfolding split by (rule delay_total_Cons [OF r])
  have nn: "0 \<le> delay_total ?r ?A" by (rule delay_total_nonneg [OF r])
  have mono: "calculateRemainingTime (wordTimer s) \<le> calculateRemainingTime s"
    unfolding before after by (rule seconds_mono [OF nn le])
  have nonneg: "0 \<le> calculateRemainingTime (wordTimer s)"
    unfolding after by (rule seconds_nonneg [OF nn])
  have "?B \<noteq> []" using len by simp
  then have pos: "1 \<le> calculateRemainingTime s"
    unfolding before by (intro seconds_pos delay_total_pos [OF r])
  have dpos: "0 < ?d" by (rule getWordDelay_pos [OF r])
  have dle: "?d \<le> 901" by (rule delay_near(2) [OF r100])
  have one: "\<lceil>?d / 1000\<rceil> = 1" using dpos dle by (simp add: ceiling_eq_iff)
  have tight: "calculateRemainingTime s - calculateRemainingTime (wordTimer s) \<le> \<lceil>?d / 1000\<rceil> \<and>
      \<bar>delay_total ?r ?B - delay_total ?r ?A - ?d\<bar> \<le> 2"
    if n: "length (words s) \<le> 1000000"
  proof -
    let ?XA = "\<Sum>u\<leftarrow>?A. spec_delay u ?r"
    let ?XB = "\<Sum>u\<leftarrow>?B. spec_delay u ?r"
    let ?sd = "spec_delay ?next ?r"
    have lA: "length ?A \<le> 1000000" and lB: "length ?B \<le> 1000000" using n by simp_all
    have X: "?XB = ?sd + ?XA" by (subst split) simp
    have sd: "?sd \<le> 900" by (rule spec_delay_le [OF r100])
    have yB: "\<bar>fdiv (delay_total ?r ?B) 1000 - ?XB / 1000\<bar> \<le> 1 / 1000"
      by (rule seconds_near [OF r100 lB])
    have yA: "\<bar>fdiv (delay_total ?r ?A) 1000 - ?XA / 1000\<bar> \<le> 1 / 1000"
      by (rule seconds_near [OF r100 lA])
    have Xd: "?XB / 1000 = ?sd / 1000 + ?XA / 1000" by (simp add: X add_divide_distrib)
    have sd': "?sd / 1000 \<le> 9 / 10" using sd by simp
    have "fdiv (delay_total ?r ?B) 1000 \<le> fdiv (delay_total ?r ?A) 1000 + 1"
      using yB yA sd' unfolding Xd by linarith
    then have "\<lceil>fdiv (delay_total ?r ?B) 1000\<rceil> \<le> \<lceil>fdiv (delay_total ?r ?A) 1000 + 1\<rceil>"
      by (rule ceiling_mono)
    then have 1: "calculateRemainingTime s - calculateRemainingTime (wordTimer s) \<le> \<lceil>?d / 1000\<rceil>"
      unfolding before after one by simp
    have tB: "\<bar>delay_total ?r ?B - ?XB\<bar> \<le> 17 / 20" by (rule total_near [OF r100 lB])
    have tA: "\<bar>delay_total ?r ?A - ?XA\<bar> \<le> 17 / 20" by (rule total_near [OF r100 lA])
    have dd: "\<bar>?d - ?sd\<bar> \<le> 1 / 1000" by (rule delay_near(1) [OF r100])
    have 2: "\<bar>delay_total ?r ?B - delay_total ?r ?A - ?d\<bar> \<le> 2"
      using tB tA dd unfolding X by linarith
    from 1 2 show ?thesis by blast
  qed
  have i1: "nat (currentIndex s) + 1 = Suc ?n" "nat (currentIndex s) + 2 = Suc (Suc ?n)" by simp_all
  have idx: "currentIndex (wordTimer s) = currentIndex s + 1" by (simp add: w)
  from idx mono nonneg pos before after one tight show ?thesis
    unfolding i1 n1 by blast
qed

text \<open>The advance from the first unit of \<open>a b c\<close>.\<close>

theorem remaining_time_never_increases_witness:
  "rate_ok reading_abc \<and> 0 \<le> currentIndex reading_abc \<and> isPlaying reading_abc \<and>
   currentIndex reading_abc < int (length (words reading_abc)) - 1 \<and>
   length (words reading_abc) \<le> 1000000 \<and>
   currentIndex (wordTimer reading_abc) = 1 \<and>
   calculateRemainingTime (wordTimer reading_abc) \<le> calculateRemainingTime reading_abc \<and>
   1 \<le> calculateRemainingTime reading_abc \<and>
   calculateRemainingTime reading_abc - calculateRemainingTime (wordTimer reading_abc) \<le> 1 \<and>
   \<bar>delay_total 300 (map ascii [''b'', ''c'']) - delay_total 300 (map ascii [''c''])
      - getWordDelay 300 (ascii ''b'')\<bar> \<le> 2"
proof -
  have h: "rate_ok reading_abc" "0 \<le> currentIndex reading_abc" "isPlaying reading_abc"
    "currentIndex reading_abc < int (length (words reading_abc)) - 1"
    by (simp_all add: rate_ok_def reading_abc_def)
  have n: "length (words reading_abc) \<le> 1000000" by (simp add: reading_abc_def)
  have c: "currentIndex reading_abc = 0" by (simp add: reading_abc_def)
  have e: "drop (nat (currentIndex reading_abc) + 1) (words reading_abc) = map ascii [''b'', ''c'']"
    "drop (nat (currentIndex reading_abc) + 2) (words reading_abc) = map ascii [''c'']"
    "words reading_abc ! nat (currentIndex reading_abc + 1) = ascii ''b''"
    "speed reading_abc = 300"
    by (simp_all add: reading_abc_def)
  note t = remaining_time_never_increases [OF h, unfolded e]
  from t have 1: "currentIndex (wordTimer reading_abc) = currentIndex reading_abc + 1" by blast
  from t have 2: "calculateRemainingTime (wordTimer reading_abc) \<le> calculateRemainingTime reading_abc"
    by blast
  from t have 3: "1 \<le> calculateRemainingTime reading_abc" by blast
  from t have 4: "\<lceil>getWordDelay 300 (ascii ''b'') / 1000\<rceil> = 1" by blast
  from t n have 5: "calculateRemainingTime reading_abc - calculateRemainingTime (wordTimer reading_abc)
      \<le> \<lceil>getWordDelay 300 (ascii ''b'') / 1000\<rceil>" by blast
  from t n have 6: "\<bar>delay_total 300 (map ascii [''b'', ''c'']) - delay_total 300 (map ascii [''c''])
           - getWordDelay 300 (ascii ''b'')\<bar> \<le> 2" by blast
  from 1 c have i: "currentIndex (wordTimer reading_abc) = 1" by simp
  from 5 have f: "calculateRemainingTime reading_abc - calculateRemainingTime (wordTimer reading_abc) \<le> 1"
    unfolding 4 .
  from h n i 2 3 f 6 show ?thesis by blast
qed


section \<open>Controller: the claims\<close>

text \<open>
  Claim C6 at the session \<open>a b c\<close> paused at the second unit: the toggle resumes at the
  same position, and \<open>handleStart\<close>, the handler of the buttons labelled Resume and Play,
  sets the position back to 0, starts the countdown at 3 and leaves playback off.
\<close>

theorem resume_button_restarts:
  "paused paused_example \<and> currentIndex paused_example = 1 \<and>
   step Toggle paused_example = paused_example\<lparr>isPlaying := True\<rparr> \<and>
   step Start paused_example = paused_example\<lparr>currentIndex := 0, countdown := Some 3\<rparr> \<and>
   \<not> isPlaying (step Start paused_example) \<and>
   currentIndex (step Start paused_example) \<noteq> currentIndex paused_example \<and>
   countdown (step Start paused_example) \<noteq> None"
proof -
  have p: "paused paused_example" by (simp add: paused_example_eq paused_def)
  have s: "step Start paused_example = paused_example\<lparr>currentIndex := 0, countdown := Some 3\<rparr>"
    by (simp add: paused_example_eq handleStart_def trim_example parse_example ascii_nonempty)
  show ?thesis unfolding s using p toggle_resumes [OF p] by (simp add: paused_example_eq)
qed

text \<open>
  Claim C8.  Whenever the sequence is non-empty, \<open>0 \<le> position < length\<close> holds in the
  initial state, is kept by every command and timer event, and so holds after every run of
  events; when the word timer expires while playing at the last index, playback stops and
  the position is unchanged.
\<close>

theorem position_stays_in_bounds:
  "position_ok initial \<and>
   (position_ok s \<longrightarrow> position_ok (step ev s)) \<and>
   position_ok (run evs initial) \<and>
   (isPlaying s \<and> words s \<noteq> [] \<and> currentIndex s = int (length (words s)) - 1
      \<longrightarrow> step WordTimer s = s\<lparr>isPlaying := False\<rparr>)"
  using position_ok_initial position_ok_step [of s ev] position_ok_run [OF position_ok_initial, of evs]
    last_unit_finishes [of s]
  by blast

text \<open>The paused session, and the timer expiry at the last unit of \<open>a b c\<close>.\<close>

theorem position_stays_in_bounds_witness:
  "position_ok paused_example \<and> words paused_example \<noteq> [] \<and>
   0 \<le> currentIndex paused_example \<and>
   currentIndex paused_example < int (length (words paused_example)) \<and>
   isPlaying (reading_abc\<lparr>currentIndex := 2\<rparr>) \<and> words (reading_abc\<lparr>currentIndex := 2\<rparr>) \<noteq> [] \<and>
   currentIndex (reading_abc\<lparr>currentIndex := 2\<rparr>)
     = int (length (words (reading_abc\<lparr>currentIndex := 2\<rparr>))) - 1 \<and>
   step WordTimer (reading_abc\<lparr>currentIndex := 2\<rparr>)
     = reading_abc\<lparr>currentIndex := 2, isPlaying := False\<rparr>"
proof -
  let ?evs = "[SetInputText (ascii ''a b c''), Start, CountdownTick, CountdownTick, CountdownTick,
               WordTimer, Toggle]"
  let ?s = "reading_abc\<lparr>currentIndex := 2\<rparr>"
  have h: "isPlaying ?s \<and> words ?s \<noteq> [] \<and> currentIndex ?s = int (length (words ?s)) - 1"
    by (simp add: reading_abc_def)
  from position_stays_in_bounds [of ?s WordTimer ?evs]
  have 1: "position_ok paused_example" and 2: "step WordTimer ?s = ?s\<lparr>isPlaying := False\<rparr>"
    using h unfolding paused_example_def by blast+
  have w: "words paused_example \<noteq> []" by (simp add: paused_example_eq)
  from 1 w have "0 \<le> currentIndex paused_example \<and>
    currentIndex paused_example < int (length (words paused_example))"
    by (simp add: position_ok_def)
  with 1 2 w h show ?thesis by simp
qed

text \<open>
  Claim C9 as stated fails on the speed slider: its change handler stores the slider value
  in the rate, so an operation other than the rate adjustment changes the rate.
\<close>

theorem slider_sets_rate_counterexample:
  "speed (step (SliderChange 500) initial) = 500 \<and> speed initial = 300 \<and>
   speed (step (SliderChange 500) initial) \<noteq> speed initial"
  by (simp add: sliderChange_def initial_def)

text \<open>
  Claim C9, amended.  The rate adjustment sets the rate to \<open>rate + delta\<close> clamped to
  \<open>[100, 1000]\<close> (the arrow keys adjust by 50); the slider sets the rate to its value, which
  its bounds keep in \<open>[100, 1000]\<close>; no other command or timer event changes the rate;
  so the rate is in \<open>[100, 1000]\<close> initially, after every operation, and after every run
  of operations.
\<close>

theorem rate_within_bounds:
  "speed (step (AdjustSpeed d) s) = max 100 (min 1000 (speed s + d)) \<and>
   speed (step KeyArrowLeft s) = max 100 (min 1000 (speed s - 50)) \<and>
   speed (step KeyArrowRight s) = max 100 (min 1000 (speed s + 50)) \<and>
   speed (step (SliderChange v) s) = v \<and>
   ((\<forall>d. ev \<noteq> AdjustSpeed d) \<and> ev \<noteq> KeyArrowLeft \<and> ev \<noteq> KeyArrowRight \<and>
      (\<forall>v. ev \<noteq> SliderChange v) \<longrightarrow> speed (step ev s) = speed s) \<and>
   rate_ok initial \<and>
   (rate_ok s \<and> wf_event ev \<longrightarrow> rate_ok (step ev s)) \<and>
   ((\<forall>ev\<in>set evs. wf_event ev) \<longrightarrow> rate_ok (run evs initial))"
proof -
  have 1: "speed (step (AdjustSpeed d) s) = max 100 (min 1000 (speed s + d))"
    "speed (step KeyArrowLeft s) = max 100 (min 1000 (speed s - 50))"
    "speed (step KeyArrowRight s) = max 100 (min 1000 (speed s + 50))"
    "speed (step (SliderChange v) s) = v"
    by (simp_all add: adjustSpeed_def sliderChange_def)
  from 1 speed_unchanged [of ev s] rate_ok_initial rate_ok_step [of s ev]
    rate_ok_run [OF rate_ok_initial, of evs]
  show ?thesis by blast
qed

text \<open>A run with an arrow key, the slider, an adjustment past the upper bound and a toggle.\<close>

theorem rate_within_bounds_witness:
  "wf_event KeyArrowRight \<and> wf_event (SliderChange 950) \<and> wf_event (AdjustSpeed 120) \<and>
   wf_event Toggle \<and>
   speed (run [KeyArrowRight, SliderChange 950, AdjustSpeed 120, Toggle] initial) = 1000 \<and>
   rate_ok (run [KeyArrowRight, SliderChange 950, AdjustSpeed 120, Toggle] initial) \<and>
   speed (step Toggle initial) = speed initial"
proof -
  let ?evs = "[KeyArrowRight, SliderChange 950, AdjustSpeed 120, Toggle]"
  have w: "wf_event KeyArrowRight" "wf_event (SliderChange 950)" "wf_event (AdjustSpeed 120)"
    "wf_event Toggle"
    by (simp_all add: wf_event_def slider_value_def)
  then have h: "\<forall>ev\<in>set ?evs. wf_event ev" by simp
  have t: "(\<forall>d. Toggle \<noteq> AdjustSpeed d) \<and> Toggle \<noteq> KeyArrowLeft \<and> Toggle \<noteq> KeyArrowRight \<and>
      (\<forall>v. Toggle \<noteq> SliderChange v)" by simp
  have v: "speed (run ?evs initial) = 1000"
    by (simp add: run_def initial_def adjustSpeed_def sliderChange_def togglePlay_def)
  from rate_within_bounds [of 0 initial 0 Toggle ?evs] h t v w show ?thesis by blast
qed

end
